theory Spec2Isabelle
  imports Complex_Main
begin

section \<open>Scope\<close>

text \<open>
  A model of the correlation layer of \<^verbatim>\<open>AutomatedTests/WebSocketHelper.js\<close>: the
  functions \<^verbatim>\<open>waitForResponse\<close> and \<^verbatim>\<open>send\<close>, the \<^verbatim>\<open>onmessage\<close> handler that
  \<^verbatim>\<open>connect\<close> installs, and the methods \<^verbatim>\<open>query\<close>, \<^verbatim>\<open>queryAll\<close>, \<^verbatim>\<open>repeatQuery\<close>,
  \<^verbatim>\<open>waitForRepeatResponse\<close>, \<^verbatim>\<open>removeQuery\<close>, \<^verbatim>\<open>cleanUpRepeatingQueries\<close>,
  \<^verbatim>\<open>addRepeatingQueryId\<close>, \<^verbatim>\<open>bindToEvent\<close> and \<^verbatim>\<open>waitForEvent\<close>.

  The program is single-threaded: a handler or the synchronous part of a method runs to
  its end before anything else does. State is passed explicitly. A promise is an entry
  of a table, pending or settled; an \<^verbatim>\<open>async\<close> method is cut at each \<^verbatim>\<open>await\<close> into the
  part that runs up to it and the part that runs when the awaited promise has settled.
  The socket is its \<^verbatim>\<open>readyState\<close> and the list of the messages handed to it; the
  timer of \<^verbatim>\<open>sleep\<close> is a state of the method that waits for it.

  What is taken from JavaScript and Node rather than from this file:
  \<^item> values are plain data, as \<^verbatim>\<open>JSON.parse\<close> builds them. The messages that the code
    concatenates from them (lines 33, 39, 96, 176) are kept as the values they are built
    from, but the concatenation itself is modelled where it can fail: converting to a
    string an object that carries a key named \<^verbatim>\<open>toString\<close> throws a \<open>TypeError\<close>;
  \<^item> \<^verbatim>\<open>eventEmitter\<close> keeps, for each event name, its listeners in the order of
    registration; \<^verbatim>\<open>on\<close> appends, \<^verbatim>\<open>emit\<close> calls them in turn and stops at the first
    one that throws, \<^verbatim>\<open>removeListener\<close> removes one. The emitter's own events
    (\<^verbatim>\<open>newListener\<close>, \<^verbatim>\<open>removeListener\<close>) and its treatment of an \<^verbatim>\<open>error\<close> event
    without a listener are left out: ids are ordinary event names;
  \<^item> the object \<^verbatim>\<open>repeatingQueries\<close> is created by \<^verbatim>\<open>{}\<close>, so the name
    \<^verbatim>\<open>__proto__\<close> is not a key of it: reading it gives the prototype and assigning a
    number to it stores nothing.
\<close>

section \<open>JavaScript values\<close>

text \<open>
  The values that travel through the helper: what a caller passes as
  \<^verbatim>\<open>expectedResponse\<close> and what \<^verbatim>\<open>JSON.parse\<close> yields for the fields of an inbound
  message. Numbers are the finite ones, as rationals (the code only compares them), with
  \<open>NaN\<close> apart; a field that is absent reads as \<open>undefined\<close>. An object is the list of
  its keys and values.
\<close>

datatype jsval =
    JUndefined
  | JNull
  | JBool bool
  | JNum rat
  | JNaN
  | JStr string
  | JArr "jsval list"
  | JObj "(string \<times> jsval) list"

text \<open>ToBoolean: the falsy values are undefined, null, false, 0, NaN and the empty string.\<close>

fun truthy :: "jsval \<Rightarrow> bool" where
  "truthy JUndefined = False"
| "truthy JNull = False"
| "truthy (JBool b) = b"
| "truthy (JNum x) = (x \<noteq> 0)"
| "truthy JNaN = False"
| "truthy (JStr s) = (s \<noteq> [])"
| "truthy (JArr xs) = True"
| "truthy (JObj fs) = True"

fun is_primitive :: "jsval \<Rightarrow> bool" where
  "is_primitive (JArr xs) = False"
| "is_primitive (JObj fs) = False"
| "is_primitive v = True"

text \<open>
  Strict equality \<^verbatim>\<open>a === b\<close>. Primitives are compared by type and value, and \<open>NaN\<close>
  equals nothing. Arrays and objects are compared by identity: the response side is
  always an object that \<^verbatim>\<open>JSON.parse\<close> has just created, never the object a caller
  holds, so the comparison is false for them.
\<close>

definition strict_eq :: "jsval \<Rightarrow> jsval \<Rightarrow> bool" where
  "strict_eq a b = (is_primitive a \<and> a \<noteq> JNaN \<and> a = b)"

text \<open>\<^verbatim>\<open>a || b\<close>\<close>

definition js_or :: "jsval \<Rightarrow> jsval \<Rightarrow> jsval" where
  "js_or a b = (if truthy a then a else b)"

text \<open>
  Whether \<^verbatim>\<open>"..." + v\<close> yields a string. A primitive always converts. An object
  converts through the \<^verbatim>\<open>toString\<close> it inherits, to \<^verbatim>\<open>[object Object]\<close>; a key
  \<^verbatim>\<open>toString\<close> of its own hides that method behind a value that cannot be called, and
  the conversion throws. An array converts by joining the conversions of its elements, so
  it converts when they all do.
\<close>

fun convertible :: "jsval \<Rightarrow> bool" where
  "convertible (JObj fs) = (map_of fs ''toString'' = None)"
| "convertible (JArr xs) = list_all convertible xs"
| "convertible v = True"

section \<open>Errors, promises, messages\<close>

text \<open>
  What the code throws or rejects with. The two messages that the code builds by string
  concatenation are kept as the values they are built from:
  \<open>ResponseMismatch response expected\<close> is
  \<^verbatim>\<open>"Returned response (" + response + ") does not match expected (" + expectedResponse + ")"\<close>
  and \<open>DuplicateId id\<close> is \<^verbatim>\<open>"Repeating query ID (" + id + ") is already being used"\<close>.
  \<open>TypeError\<close> is a read of a property of \<open>null\<close> or \<open>undefined\<close>, and
  \<open>InvalidStateError\<close> is what \<^verbatim>\<open>WebSocket.send\<close> throws while the socket is connecting.
\<close>

datatype error =
    ResponseMismatch jsval jsval
  | DuplicateId string
  | TypeError
  | InvalidStateError

datatype outcome = Pending | Resolved jsval | Rejected error

text \<open>Outbound message \<^verbatim>\<open>{id, q, repeat?: {freq}}\<close> and inbound message
  \<^verbatim>\<open>{id, info?, data?, error?}\<close>. The id of a message is a string, as the callers
  pass it and as the server returns it; the other fields of an inbound message are any
  values.\<close>

record out_msg =
  msg_id :: string
  msg_q :: string
  msg_repeat :: "rat option"

record in_msg =
  reply_id :: string
  reply_info :: jsval
  reply_data :: jsval
  reply_error :: jsval

text \<open>The lines written to the console, as the values they print.\<close>

datatype log_entry =
    LogListener jsval jsval bool
  | LogSending out_msg
  | LogReadyState nat
  | LogReceived in_msg
  | LogError string jsval

text \<open>
  The listener that \<^verbatim>\<open>waitForResponse\<close> creates is a closure over the promise's
  \<^verbatim>\<open>resolve\<close>/\<^verbatim>\<open>reject\<close> pair and over \<^verbatim>\<open>expectedResponse\<close> and \<^verbatim>\<open>repeating\<close>.
  A promise is named by its index in the table of promises.
\<close>

record listener =
  promise :: nat
  expectedResponse :: jsval
  repeating :: bool

text \<open>The WebSocket: its \<^verbatim>\<open>readyState\<close> and the messages it has transmitted.\<close>

record websocket =
  readyState :: nat
  sent :: "out_msg list"

definition CONNECTING :: nat where "CONNECTING = 0"
definition OPEN :: nat where "OPEN = 1"

text \<open>
  The state of the module and of one \<^verbatim>\<open>WebSocketHelper\<close>: the listeners of the
  module's \<^verbatim>\<open>eventEmitter\<close> (event name and listener, in the order of registration),
  the promises created so far, the console, the \<^verbatim>\<open>logOutput\<close> switch, the socket
  (\<open>None\<close> is the \<open>null\<close> of the constructor) and the object \<^verbatim>\<open>repeatingQueries\<close>, used
  as a dictionary from ids to 1, with its keys in the order of their creation.
\<close>

record state =
  eventEmitter :: "(string \<times> listener) list"
  promises :: "outcome list"
  console :: "log_entry list"
  logOutput :: bool
  ws :: "websocket option"
  repeatingQueries :: "(string \<times> int) list"

definition prefixEvent :: string where "prefixEvent = ''event_''"
definition prefixQuery :: string where "prefixQuery = ''/q/''"
definition prefixBind :: string where "prefixBind = ''/bind/''"

section \<open>The correlator: waitForResponse and the event emitter\<close>

definition console_log :: "log_entry \<Rightarrow> state \<Rightarrow> state" where
  "console_log e st = st\<lparr>console := console st @ [e]\<rparr>"

definition logToConsole :: "log_entry \<Rightarrow> state \<Rightarrow> state" where
  "logToConsole e st = (if logOutput st then console_log e st else st)"

text \<open>A promise settles once: \<^verbatim>\<open>resolve\<close> and \<^verbatim>\<open>reject\<close> on a settled promise do nothing.\<close>

definition settle :: "nat \<Rightarrow> outcome \<Rightarrow> state \<Rightarrow> state" where
  "settle h out st =
     (if h < length (promises st) \<and> promises st ! h = Pending
      then st\<lparr>promises := (promises st)[h := out]\<rparr> else st)"

definition resolve :: "nat \<Rightarrow> jsval \<Rightarrow> state \<Rightarrow> state" where
  "resolve h v = settle h (Resolved v)"

definition reject :: "nat \<Rightarrow> error \<Rightarrow> state \<Rightarrow> state" where
  "reject h e = settle h (Rejected e)"

text \<open>\<^verbatim>\<open>eventEmitter.removeListener(id, listener)\<close> removes the most recently added
  instance of the listener from the listeners of \<open>id\<close>.\<close>

definition removeListener :: "string \<Rightarrow> listener \<Rightarrow> state \<Rightarrow> state" where
  "removeListener i l st = st\<lparr>eventEmitter := rev (remove1 (i, l) (rev (eventEmitter st)))\<rparr>"

text \<open>
  The body of the listener (lines 32 to 41), called with a response. Line 33 builds the
  log string from \<^verbatim>\<open>response\<close> and \<^verbatim>\<open>expectedResponse\<close> before \<^verbatim>\<open>logToConsole\<close> looks
  at \<^verbatim>\<open>logOutput\<close>, so the listener throws there, before any test, when one of the two
  does not convert. The result is what was thrown, if anything, and the state.
\<close>

definition listener_call :: "string \<Rightarrow> jsval \<Rightarrow> listener \<Rightarrow> state \<Rightarrow> error option \<times> state" where
  "listener_call i response l st =
     (if \<not> (convertible response \<and> convertible (expectedResponse l)) then (Some TypeError, st)
      else (let st1 = logToConsole (LogListener response (expectedResponse l) (repeating l)) st in
            if \<not> truthy (expectedResponse l) \<or> strict_eq (expectedResponse l) response
            then (None, resolve (promise l) response (removeListener i l st1))
            else if \<not> repeating l
            then (None, reject (promise l) (ResponseMismatch response (expectedResponse l))
                         (removeListener i l st1))
            else (None, st1)))"

text \<open>\<^verbatim>\<open>waitForResponse\<close>: a new promise whose executor registers the listener with
  \<^verbatim>\<open>eventEmitter.on\<close>, which appends it. The result is the promise.\<close>

definition waitForResponse :: "string \<Rightarrow> jsval \<Rightarrow> bool \<Rightarrow> state \<Rightarrow> nat \<times> state" where
  "waitForResponse i expected rep st =
     (let h = length (promises st);
          l = \<lparr>promise = h, expectedResponse = expected, repeating = rep\<rparr>
      in (h, st\<lparr>promises := promises st @ [Pending],
                eventEmitter := eventEmitter st @ [(i, l)]\<rparr>))"

text \<open>\<^verbatim>\<open>eventEmitter.emit(id, response)\<close> calls, one after the other and in the order of
  registration, the listeners that are registered for \<open>id\<close> when the call starts. When
  one of them throws, the later ones are not called and \<^verbatim>\<open>emit\<close> throws the same.\<close>

definition listeners_of :: "string \<Rightarrow> state \<Rightarrow> listener list" where
  "listeners_of i st = map snd (filter (\<lambda>e. fst e = i) (eventEmitter st))"

fun call_listeners :: "string \<Rightarrow> jsval \<Rightarrow> listener list \<Rightarrow> state \<Rightarrow> error option \<times> state" where
  "call_listeners i response [] st = (None, st)"
| "call_listeners i response (l # ls) st =
     (case listener_call i response l st of
        (Some e, st1) \<Rightarrow> (Some e, st1)
      | (None, st1) \<Rightarrow> call_listeners i response ls st1)"

definition emit :: "string \<Rightarrow> jsval \<Rightarrow> state \<Rightarrow> error option \<times> state" where
  "emit i response st = call_listeners i response (listeners_of i st) st"

text \<open>
  The \<^verbatim>\<open>onmessage\<close> handler that \<^verbatim>\<open>connect\<close> installs, on the parsed message. With a
  truthy \<^verbatim>\<open>msg.error\<close>, line 96 concatenates it into the line for the console, and
  throws when it does not convert; line 101 is then not reached. The result is what the
  handler threw, if anything, and the state it leaves.
\<close>

definition onmessage :: "in_msg \<Rightarrow> state \<Rightarrow> error option \<times> state" where
  "onmessage m st =
     (let st1 = logToConsole (LogReceived m) st in
      if truthy (reply_error m) \<and> \<not> convertible (reply_error m) then (Some TypeError, st1)
      else (let st2 = (if truthy (reply_error m)
                       then console_log (LogError (reply_id m) (reply_error m)) st1 else st1)
            in emit (reply_id m) (js_or (reply_info m) (reply_data m)) st2))"

section \<open>The session: sending and the public operations\<close>

text \<open>
  The fourth argument of \<^verbatim>\<open>send\<close> is a number, or the string \<^verbatim>\<open>"bound"\<close> that
  \<^verbatim>\<open>bindToEvent\<close> passes in this position (line 193). The comparison \<^verbatim>\<open>freq >= 0\<close>
  converts the string to \<open>NaN\<close> and is false for it. An argument \<open>undefined\<close> or left
  out selects the default \<open>-1\<close>.
\<close>

datatype freq_arg = FreqNum rat | FreqBound

definition default_freq :: freq_arg where
  "default_freq = FreqNum (- 1)"

fun freq_repeat :: "freq_arg \<Rightarrow> rat option" where
  "freq_repeat (FreqNum x) = (if 0 \<le> x then Some x else None)"
| "freq_repeat FreqBound = None"

text \<open>\<^verbatim>\<open>WebSocket.send\<close> on a socket that is not connecting: an open socket transmits the
  message, a closing or closed one discards it.\<close>

definition ws_send :: "out_msg \<Rightarrow> websocket \<Rightarrow> websocket" where
  "ws_send m w = (if readyState w = OPEN then w\<lparr>sent := sent w @ [m]\<rparr> else w)"

text \<open>
  \<^verbatim>\<open>send\<close> (lines 57 to 68) builds the message, logs it, reads \<^verbatim>\<open>ws.readyState\<close>
  (a \<open>TypeError\<close> while \<^verbatim>\<open>ws\<close> is \<open>null\<close>), hands the message to the socket and
  returns the promise of \<^verbatim>\<open>waitForResponse(id, expectedResponse)\<close>, a waiter that is not
  repeating. The result is \<open>Inl\<close> of what was thrown, or \<open>Inr\<close> of the promise.
\<close>

definition send :: "string \<Rightarrow> string \<Rightarrow> freq_arg \<Rightarrow> jsval \<Rightarrow> state \<Rightarrow> (error + nat) \<times> state" where
  "send i url freq expected st =
     (let msg = \<lparr>msg_id = i, msg_q = url, msg_repeat = freq_repeat freq\<rparr>;
          st1 = logToConsole (LogSending msg) st
      in case ws st1 of
           None \<Rightarrow> (Inl TypeError, st1)
         | Some w \<Rightarrow>
             (let st2 = console_log (LogReadyState (readyState w)) st1 in
              if readyState w = CONNECTING then (Inl InvalidStateError, st2)
              else (case waitForResponse i expected False (st2\<lparr>ws := Some (ws_send msg w)\<rparr>) of
                      (h, st3) \<Rightarrow> (Inr h, st3))))"

text \<open>
  An \<^verbatim>\<open>async\<close> method runs until its first \<^verbatim>\<open>await\<close>. Its model returns \<open>Inl\<close> of what
  it threw before (its promise is rejected with that), or \<open>Inr\<close> of the promise it awaits.
  What it does once that promise has settled is a function of its own, and the outcome of
  the method's promise is a function of the awaited promise's outcome.
\<close>

definition outcome_of :: "error + nat \<Rightarrow> state \<Rightarrow> outcome" where
  "outcome_of c st =
     (case c of Inl e \<Rightarrow> Rejected e
      | Inr h \<Rightarrow> (if h < length (promises st) then promises st ! h else Pending))"

text \<open>\<^verbatim>\<open>response[0]\<close>: a \<open>TypeError\<close> on \<open>undefined\<close> and \<open>null\<close>, the first element of an
  array or the first character of a string (\<open>undefined\<close> when there is none), the
  property \<^verbatim>\<open>"0"\<close> of an object, and \<open>undefined\<close> on a boolean or a number. The result
  is the outcome that \<^verbatim>\<open>query\<close> gets from it.\<close>

fun js_index0 :: "jsval \<Rightarrow> outcome" where
  "js_index0 JUndefined = Rejected TypeError"
| "js_index0 JNull = Rejected TypeError"
| "js_index0 (JArr xs) = Resolved (case xs of [] \<Rightarrow> JUndefined | x # _ \<Rightarrow> x)"
| "js_index0 (JStr s) = Resolved (case s of [] \<Rightarrow> JUndefined | c # _ \<Rightarrow> JStr [c])"
| "js_index0 (JObj fs) = Resolved (case map_of fs ''0'' of None \<Rightarrow> JUndefined | Some v \<Rightarrow> v)"
| "js_index0 v = Resolved JUndefined"

definition query :: "string \<Rightarrow> string \<Rightarrow> state \<Rightarrow> (error + nat) \<times> state" where
  "query i url st = send i (prefixQuery @ url) default_freq JUndefined st"

definition query_outcome :: "error + nat \<Rightarrow> state \<Rightarrow> outcome" where
  "query_outcome c st =
     (case outcome_of c st of Resolved r \<Rightarrow> js_index0 r | out \<Rightarrow> out)"

definition queryAll :: "string \<Rightarrow> string \<Rightarrow> state \<Rightarrow> (error + nat) \<times> state" where
  "queryAll i url st = send i (prefixQuery @ url) default_freq JUndefined st"

definition queryAll_outcome :: "error + nat \<Rightarrow> state \<Rightarrow> outcome" where
  "queryAll_outcome c st = outcome_of c st"

text \<open>
  The object \<^verbatim>\<open>repeatingQueries\<close>, created by \<^verbatim>\<open>{}\<close>: reading a key, assigning a
  number to it, \<^verbatim>\<open>delete\<close>. Reading gives the number stored under the key; \<open>None\<close>
  stands for every other value, none of which \<^verbatim>\<open>== 1\<close>: \<open>undefined\<close> for a key that is
  not there, a method of the prototype, and the prototype itself for \<^verbatim>\<open>__proto__\<close>.
  Assigning a number to \<^verbatim>\<open>__proto__\<close> calls the setter of the prototype, which ignores
  it, so nothing is stored.
\<close>

definition obj_get :: "string \<Rightarrow> (string \<times> int) list \<Rightarrow> int option" where
  "obj_get k kvs = (if k = ''__proto__'' then None else map_of kvs k)"

definition obj_set :: "string \<Rightarrow> int \<Rightarrow> (string \<times> int) list \<Rightarrow> (string \<times> int) list" where
  "obj_set k v kvs =
     (if k = ''__proto__'' then kvs
      else if map_of kvs k = None then kvs @ [(k, v)]
      else map (\<lambda>e. if fst e = k then (k, v) else e) kvs)"

definition obj_delete :: "string \<Rightarrow> (string \<times> int) list \<Rightarrow> (string \<times> int) list" where
  "obj_delete k kvs = filter (\<lambda>e. fst e \<noteq> k) kvs"

definition addRepeatingQueryId :: "string \<Rightarrow> state \<Rightarrow> error + state" where
  "addRepeatingQueryId i st =
     (if obj_get i (repeatingQueries st) = Some 1 then Inl (DuplicateId i)
      else Inr (st\<lparr>repeatingQueries := obj_set i 1 (repeatingQueries st)\<rparr>))"

definition repeatQuery :: "string \<Rightarrow> string \<Rightarrow> rat \<Rightarrow> state \<Rightarrow> (error + nat) \<times> state" where
  "repeatQuery i url freq st =
     (case addRepeatingQueryId i st of
        Inl e \<Rightarrow> (Inl e, st)
      | Inr st1 \<Rightarrow> send i (prefixQuery @ url) (FreqNum freq) (JStr ''repeating'') st1)"

definition repeatQuery_outcome :: "error + nat \<Rightarrow> state \<Rightarrow> outcome" where
  "repeatQuery_outcome c st =
     (case outcome_of c st of Resolved r \<Rightarrow> Resolved JUndefined | out \<Rightarrow> out)"

definition waitForRepeatResponse :: "string \<Rightarrow> jsval \<Rightarrow> state \<Rightarrow> nat \<times> state" where
  "waitForRepeatResponse i expected st = waitForResponse i expected True st"

definition waitForEvent :: "string \<Rightarrow> jsval \<Rightarrow> state \<Rightarrow> nat \<times> state" where
  "waitForEvent i expected st = waitForResponse (prefixEvent @ i) expected True st"

text \<open>\<^verbatim>\<open>removeQuery\<close>: up to its \<^verbatim>\<open>await\<close>, and from there once the promise \<open>h\<close> of
  \<^verbatim>\<open>send\<close> has settled.\<close>

definition removeQuery :: "string \<Rightarrow> state \<Rightarrow> (error + nat) \<times> state" where
  "removeQuery i st =
     send i (''/socket.stop('' @ i @ '')'') (FreqNum (- 1)) (JStr ''stopped'') st"

definition removeQuery_resume :: "string \<Rightarrow> nat \<Rightarrow> state \<Rightarrow> outcome \<times> state" where
  "removeQuery_resume i h st =
     (case outcome_of (Inr h) st of
        Pending \<Rightarrow> (Pending, st)
      | Rejected e \<Rightarrow> (Rejected e, st)
      | Resolved r \<Rightarrow>
          (Resolved JUndefined, st\<lparr>repeatingQueries := obj_delete i (repeatingQueries st)\<rparr>))"

text \<open>
  \<^verbatim>\<open>for (let key in this.repeatingQueries)\<close> visits the keys that are array indices in
  ascending numeric order, then the other keys in the order of their creation, and
  skips a key that has been deleted before its turn.
\<close>

definition is_digit :: "char \<Rightarrow> bool" where
  "is_digit c = (48 \<le> (of_char c :: int) \<and> (of_char c :: int) \<le> 57)"

definition dec_value :: "string \<Rightarrow> int" where
  "dec_value s = foldl (\<lambda>n c. 10 * n + ((of_char c :: int) - 48)) 0 s"

definition is_array_index :: "string \<Rightarrow> bool" where
  "is_array_index s =
     (s \<noteq> [] \<and> list_all is_digit s \<and> (s = ''0'' \<or> hd s \<noteq> CHR ''0'') \<and>
      dec_value s < 4294967295)"

definition for_in_keys :: "(string \<times> int) list \<Rightarrow> string list" where
  "for_in_keys kvs =
     sort_key dec_value (filter is_array_index (map fst kvs)) @
     filter (\<lambda>k. \<not> is_array_index k) (map fst kvs)"

text \<open>
  \<^verbatim>\<open>cleanUpRepeatingQueries\<close> is either done, or awaits the promise \<open>h\<close> of the
  \<^verbatim>\<open>removeQuery\<close> of the key \<open>k\<close>, with the keys \<open>ks\<close> still to visit.
\<close>

datatype cleanup_task = CleanUpDone outcome | CleanUpAwait nat string "string list"

fun cleanUp_loop :: "string list \<Rightarrow> state \<Rightarrow> cleanup_task \<times> state" where
  "cleanUp_loop [] st = (CleanUpDone (Resolved JUndefined), st)"
| "cleanUp_loop (k # ks) st =
     (if map_of (repeatingQueries st) k = None then cleanUp_loop ks st
      else (case removeQuery k st of
              (Inl e, st1) \<Rightarrow> (CleanUpDone (Rejected e), st1)
            | (Inr h, st1) \<Rightarrow> (CleanUpAwait h k ks, st1)))"

definition cleanUpRepeatingQueries :: "state \<Rightarrow> cleanup_task \<times> state" where
  "cleanUpRepeatingQueries st = cleanUp_loop (for_in_keys (repeatingQueries st)) st"

fun cleanUp_resume :: "cleanup_task \<Rightarrow> state \<Rightarrow> cleanup_task \<times> state" where
  "cleanUp_resume (CleanUpDone out) st = (CleanUpDone out, st)"
| "cleanUp_resume (CleanUpAwait h k ks) st =
     (case removeQuery_resume k h st of
        (Pending, st1) \<Rightarrow> (CleanUpAwait h k ks, st1)
      | (Rejected e, st1) \<Rightarrow> (CleanUpDone (Rejected e), st1)
      | (Resolved r, st1) \<Rightarrow> cleanUp_loop ks st1)"

text \<open>
  \<^verbatim>\<open>bindToEvent\<close> is done, or awaits the promise of \<^verbatim>\<open>send\<close>, or sleeps for a second.
  \<open>bindToEvent\<close> runs one turn of the loop up to the \<^verbatim>\<open>await\<close> of \<^verbatim>\<open>send\<close>,
  \<open>bindToEvent_resume\<close> continues when that promise has settled, and
  \<open>bindToEvent_wake\<close> when the sleep is over.
\<close>

datatype bind_task = BindDone outcome | BindAwait nat | BindSleep

definition bindToEvent :: "string \<Rightarrow> string \<Rightarrow> bool \<Rightarrow> state \<Rightarrow> bind_task \<times> state" where
  "bindToEvent i url polling st =
     (case send (prefixEvent @ i) (prefixBind @ url)
             (if \<not> polling then FreqBound else default_freq) JUndefined st of
        (Inl e, st1) \<Rightarrow> (BindDone (Rejected e), st1)
      | (Inr h, st1) \<Rightarrow> (BindAwait h, st1))"

fun bindToEvent_resume :: "bind_task \<Rightarrow> state \<Rightarrow> bind_task \<times> state" where
  "bindToEvent_resume (BindAwait h) st =
     (case outcome_of (Inr h) st of
        Pending \<Rightarrow> (BindAwait h, st)
      | Rejected e \<Rightarrow> (BindDone (Rejected e), st)
      | Resolved r \<Rightarrow>
          (let bound = strict_eq r (JStr ''bound'') in
           if \<not> bound then (BindSleep, st) else (BindDone (Resolved JUndefined), st)))"
| "bindToEvent_resume t st = (t, st)"

fun bindToEvent_wake :: "string \<Rightarrow> string \<Rightarrow> bool \<Rightarrow> bind_task \<Rightarrow> state \<Rightarrow> bind_task \<times> state" where
  "bindToEvent_wake i url polling BindSleep st =
     (if polling then bindToEvent i url polling st else (BindDone (Resolved JUndefined), st))"
| "bindToEvent_wake i url polling t st = (t, st)"

section \<open>States, invariant and scenarios\<close>

text \<open>The state after the constructor, and after \<^verbatim>\<open>connect\<close> has opened the socket.\<close>

definition new_helper :: "bool \<Rightarrow> state" where
  "new_helper debug =
     \<lparr>eventEmitter = [], promises = [], console = [], logOutput = debug, ws = None,
      repeatingQueries = []\<rparr>"

definition open_helper :: "bool \<Rightarrow> state" where
  "open_helper debug = (new_helper debug)\<lparr>ws := Some \<lparr>readyState = OPEN, sent = []\<rparr>\<rparr>"

text \<open>
  What every reachable state satisfies: each registered listener belongs to a promise of
  the table, no two listeners belong to the same promise, and the keys of
  \<^verbatim>\<open>repeatingQueries\<close> are distinct and none of them is \<^verbatim>\<open>__proto__\<close>.
\<close>

definition handles :: "state \<Rightarrow> nat list" where
  "handles st = map (\<lambda>e. promise (snd e)) (eventEmitter st)"

definition wf_state :: "state \<Rightarrow> bool" where
  "wf_state st =
     (distinct (handles st) \<and> list_all (\<lambda>h. h < length (promises st)) (handles st) \<and>
      distinct (map fst (repeatingQueries st)) \<and>
      list_all (\<lambda>k. k \<noteq> ''__proto__'') (map fst (repeatingQueries st)))"

text \<open>
  A listener seen from outside: whether it throws on a response, whether it settles its
  promise, and the outcome it gives it. \<open>listener_step\<close> is the state it leaves.
\<close>

definition throws :: "jsval \<Rightarrow> listener \<Rightarrow> bool" where
  "throws r l = (\<not> (convertible r \<and> convertible (expectedResponse l)))"

definition settles :: "jsval \<Rightarrow> listener \<Rightarrow> bool" where
  "settles r l =
     (convertible r \<and> convertible (expectedResponse l) \<and>
      (\<not> truthy (expectedResponse l) \<or> strict_eq (expectedResponse l) r \<or> \<not> repeating l))"

definition verdict :: "jsval \<Rightarrow> listener \<Rightarrow> outcome" where
  "verdict r l =
     (if \<not> (convertible r \<and> convertible (expectedResponse l)) then Pending
      else if \<not> truthy (expectedResponse l) \<or> strict_eq (expectedResponse l) r then Resolved r
      else if \<not> repeating l then Rejected (ResponseMismatch r (expectedResponse l))
      else Pending)"

definition listener_step :: "string \<Rightarrow> jsval \<Rightarrow> listener \<Rightarrow> state \<Rightarrow> state" where
  "listener_step i r l st = snd (listener_call i r l st)"

text \<open>
  No waiter that is registered for the id has an expected value that does not convert:
  none of them throws on a response that converts.
\<close>

definition calm :: "string \<Rightarrow> state \<Rightarrow> bool" where
  "calm i st = list_all (\<lambda>l. convertible (expectedResponse l)) (listeners_of i st)"

text \<open>The parts of the state other than the console.\<close>

definition core :: "state \<Rightarrow> (string \<times> listener) list \<times> outcome list \<times> bool \<times> websocket option \<times> (string \<times> int) list" where
  "core st = (eventEmitter st, promises st, logOutput st, ws st, repeatingQueries st)"

text \<open>A sequence of dispatched replies, each an id and a payload.\<close>

fun dispatch_all :: "(string \<times> jsval) list \<Rightarrow> state \<Rightarrow> state" where
  "dispatch_all [] st = st"
| "dispatch_all ((i, r) # rs) st = dispatch_all rs (snd (emit i r st))"

text \<open>What can happen to the correlator later on: a waiter is registered, or a reply is
  dispatched.\<close>

datatype action = Register string jsval bool | Dispatch string jsval

fun act :: "action \<Rightarrow> state \<Rightarrow> state" where
  "act (Register i e rep) st = snd (waitForResponse i e rep st)"
| "act (Dispatch i r) st = snd (emit i r st)"

text \<open>The messages handed to the socket so far, and what \<^verbatim>\<open>ready()\<close> tests: that there
  is a socket and that it is open.\<close>

definition transmitted :: "state \<Rightarrow> out_msg list" where
  "transmitted st = (case ws st of None \<Rightarrow> [] | Some w \<Rightarrow> sent w)"

definition is_open :: "state \<Rightarrow> bool" where
  "is_open st = (case ws st of None \<Rightarrow> False | Some w \<Rightarrow> readyState w = OPEN)"

text \<open>The stop message of an id, and the reply that acknowledges it.\<close>

definition stop_msg :: "string \<Rightarrow> out_msg" where
  "stop_msg k = \<lparr>msg_id = k, msg_q = ''/socket.stop('' @ k @ '')'', msg_repeat = None\<rparr>"

definition stopped_reply :: "string \<Rightarrow> in_msg" where
  "stopped_reply k =
     \<lparr>reply_id = k, reply_info = JStr ''stopped'', reply_data = JUndefined,
      reply_error = JUndefined\<rparr>"

text \<open>
  The inbound messages of a clean-up that goes well: for each id in turn, any messages
  for other ids, then the acknowledgment of the id. \<open>waiting h k st\<close> says that
  the waiter of the stop message of \<open>k\<close> is registered and that its promise \<open>h\<close> is
  pending.
\<close>

fun round_trips :: "in_msg list list \<Rightarrow> string list \<Rightarrow> in_msg list" where
  "round_trips (ns # nss) (k # ks) = ns @ stopped_reply k # round_trips nss ks"
| "round_trips nss ks = []"

definition waiting :: "nat \<Rightarrow> string \<Rightarrow> state \<Rightarrow> bool" where
  "waiting h k st =
     ((k, \<lparr>promise = h, expectedResponse = JStr ''stopped'', repeating = False\<rparr>)
        \<in> set (eventEmitter st) \<and>
      promises st ! h = Pending)"

text \<open>An inbound message arrives while \<^verbatim>\<open>cleanUpRepeatingQueries\<close> or \<^verbatim>\<open>bindToEvent\<close>
  is running: the handler runs (what it throws goes to the socket, not to the method),
  then the method continues if its promise has settled.\<close>

fun cleanUp_deliver :: "in_msg \<Rightarrow> cleanup_task \<times> state \<Rightarrow> cleanup_task \<times> state" where
  "cleanUp_deliver m (t, st) = cleanUp_resume t (snd (onmessage m st))"

fun bind_deliver :: "in_msg \<Rightarrow> bind_task \<times> state \<Rightarrow> bind_task \<times> state" where
  "bind_deliver m (t, st) = bindToEvent_resume t (snd (onmessage m st))"

text \<open>
  What can happen between two calls of \<^verbatim>\<open>repeatQuery\<close>: an inbound message, another call
  of \<^verbatim>\<open>repeatQuery\<close>, the part of \<^verbatim>\<open>removeQuery\<close> before its \<^verbatim>\<open>await\<close> or the part
  after it. Only the last removes an id from the registry.
\<close>

datatype session_step =
  Inbound in_msg
| RepeatQuery string string rat
| RemoveQuery string
| RemoveQueryResume string nat

fun run_step :: "session_step \<Rightarrow> state \<Rightarrow> state" where
  "run_step (Inbound m) st = snd (onmessage m st)"
| "run_step (RepeatQuery j url freq) st = snd (repeatQuery j url freq st)"
| "run_step (RemoveQuery j) st = snd (removeQuery j st)"
| "run_step (RemoveQueryResume j h) st = snd (removeQuery_resume j h st)"

fun completes_removal :: "string \<Rightarrow> session_step \<Rightarrow> bool" where
  "completes_removal i (RemoveQueryResume j h) = (j = i)"
| "completes_removal i s = False"

section \<open>Frame and invariant lemmas\<close>

lemma settle_frame [simp]:
  "eventEmitter (settle h out st) = eventEmitter st"
  "console (settle h out st) = console st"
  "logOutput (settle h out st) = logOutput st"
  "ws (settle h out st) = ws st"
  "repeatingQueries (settle h out st) = repeatingQueries st"
  "length (promises (settle h out st)) = length (promises st)"
  by (simp_all add: settle_def)

lemma settle_other: "g \<noteq> h \<Longrightarrow> promises (settle h out st) ! g = promises st ! g"
  by (simp add: settle_def)

lemma settle_settled: "promises st ! g \<noteq> Pending \<Longrightarrow> promises (settle h out st) ! g = promises st ! g"
  by (cases "g = h") (simp_all add: settle_def)

lemma settle_pending:
  "h < length (promises st) \<Longrightarrow> promises st ! h = Pending \<Longrightarrow> promises (settle h out st) ! h = out"
  by (simp add: settle_def)

lemma logToConsole_frame [simp]:
  "eventEmitter (logToConsole e st) = eventEmitter st"
  "promises (logToConsole e st) = promises st"
  "logOutput (logToConsole e st) = logOutput st"
  "ws (logToConsole e st) = ws st"
  "repeatingQueries (logToConsole e st) = repeatingQueries st"
  by (simp_all add: logToConsole_def console_log_def)

lemma console_log_frame [simp]:
  "eventEmitter (console_log e st) = eventEmitter st"
  "promises (console_log e st) = promises st"
  "logOutput (console_log e st) = logOutput st"
  "ws (console_log e st) = ws st"
  "repeatingQueries (console_log e st) = repeatingQueries st"
  "console (console_log e st) = console st @ [e]"
  by (simp_all add: console_log_def)

lemma removeListener_frame [simp]:
  "promises (removeListener i l st) = promises st"
  "logOutput (removeListener i l st) = logOutput st"
  "console (removeListener i l st) = console st"
  "ws (removeListener i l st) = ws st"
  "repeatingQueries (removeListener i l st) = repeatingQueries st"
  "eventEmitter (removeListener i l st) = rev (remove1 (i, l) (rev (eventEmitter st)))"
  by (simp_all add: removeListener_def)

lemma listener_call_fst: "fst (listener_call i r l st) = (if throws r l then Some TypeError else None)"
  by (simp add: listener_call_def throws_def Let_def)

lemma listener_step_eq:
  "listener_step i r l st =
     (if settles r l
      then settle (promise l) (verdict r l)
             (removeListener i l (logToConsole (LogListener r (expectedResponse l) (repeating l)) st))
      else if throws r l then st
      else logToConsole (LogListener r (expectedResponse l) (repeating l)) st)"
  by (auto simp add: listener_step_def listener_call_def throws_def settles_def verdict_def Let_def
      resolve_def reject_def)

lemma listener_step_frame [simp]:
  "logOutput (listener_step i r l st) = logOutput st"
  "ws (listener_step i r l st) = ws st"
  "repeatingQueries (listener_step i r l st) = repeatingQueries st"
  "length (promises (listener_step i r l st)) = length (promises st)"
  by (simp_all add: listener_step_eq Let_def)

lemma listener_step_emitter:
  "eventEmitter (listener_step i r l st) =
     (if settles r l then rev (remove1 (i, l) (rev (eventEmitter st))) else eventEmitter st)"
  by (simp add: listener_step_eq Let_def)

lemma listener_step_other:
  "promise l \<noteq> g \<Longrightarrow> promises (listener_step i r l st) ! g = promises st ! g"
  by (simp add: listener_step_eq Let_def settle_other)

lemma listener_step_settled:
  "promises st ! g \<noteq> Pending \<Longrightarrow> promises (listener_step i r l st) ! g = promises st ! g"
  by (simp add: listener_step_eq Let_def settle_settled)

lemma listener_step_idle:
  "\<not> settles r l \<Longrightarrow> promises (listener_step i r l st) = promises st"
  by (simp add: listener_step_eq Let_def)

lemma listener_step_pending:
  "promise l < length (promises st) \<Longrightarrow> promises st ! promise l = Pending \<Longrightarrow>
   promises (listener_step i r l st) ! promise l = verdict r l"
  by (simp add: listener_step_eq Let_def settle_pending verdict_def settles_def throws_def)

lemma listener_step_subset:
  "set (eventEmitter (listener_step i r l st)) \<subseteq> set (eventEmitter st)"
  using set_remove1_subset [of "(i, l)" "rev (eventEmitter st)"]
  by (auto simp add: listener_step_emitter)

lemma fold_call_frame [simp]:
  "logOutput (fold (listener_step i r) ls st) = logOutput st"
  "ws (fold (listener_step i r) ls st) = ws st"
  "repeatingQueries (fold (listener_step i r) ls st) = repeatingQueries st"
  "length (promises (fold (listener_step i r) ls st)) = length (promises st)"
  by (induction ls arbitrary: st) simp_all

lemma fold_call_settled:
  "promises st ! g \<noteq> Pending \<Longrightarrow> promises (fold (listener_step i r) ls st) ! g = promises st ! g"
  by (induction ls arbitrary: st) (simp_all add: listener_step_settled)

lemma fold_call_idle:
  "list_all (\<lambda>l. promise l = g \<longrightarrow> \<not> settles r l) ls \<Longrightarrow>
   promises (fold (listener_step i r) ls st) ! g = promises st ! g"
proof (induction ls arbitrary: st)
  case Nil
  then show ?case by simp
next
  case (Cons l ls)
  have "promises (listener_step i r l st) ! g = promises st ! g"
  proof (cases "promise l = g")
    case True
    with Cons.prems show ?thesis by (simp add: listener_step_idle)
  next
    case False
    then show ?thesis by (rule listener_step_other)
  qed
  with Cons show ?case by simp
qed

lemma fold_call_other:
  "g \<notin> set (map promise ls) \<Longrightarrow> promises (fold (listener_step i r) ls st) ! g = promises st ! g"
  by (rule fold_call_idle) (auto simp add: list_all_iff)

lemma fold_call_pending:
  "l \<in> set ls \<Longrightarrow> distinct (map promise ls) \<Longrightarrow> promise l < length (promises st) \<Longrightarrow>
   promises st ! promise l = Pending \<Longrightarrow>
   promises (fold (listener_step i r) ls st) ! promise l = verdict r l"
proof (induction ls arbitrary: st)
  case Nil
  then show ?case by simp
next
  case (Cons x ls)
  show ?case
  proof (cases "x = l")
    case True
    have now: "promises (listener_step i r l st) ! promise l = verdict r l"
      using Cons.prems by (simp add: listener_step_pending)
    have "promise l \<notin> set (map promise ls)"
      using Cons.prems True by simp
    then have "promises (fold (listener_step i r) ls (listener_step i r l st)) ! promise l
                = promises (listener_step i r l st) ! promise l"
      by (rule fold_call_other)
    with now True show ?thesis by simp
  next
    case False
    with Cons.prems have mem: "l \<in> set ls" and ne: "promise x \<noteq> promise l"
      by auto
    have "promises (listener_step i r x st) ! promise l = Pending"
      using ne Cons.prems by (simp add: listener_step_other)
    with Cons.IH [of "listener_step i r x st"] mem Cons.prems show ?thesis
      by simp
  qed
qed

lemma fold_call_subset:
  "set (eventEmitter (fold (listener_step i r) ls st)) \<subseteq> set (eventEmitter st)"
proof (induction ls arbitrary: st)
  case Nil
  then show ?case by simp
next
  case (Cons l ls)
  from Cons.IH [of "listener_step i r l st"] listener_step_subset [of i r l st]
  show ?case by auto
qed

lemma fold_call_keeps:
  "e \<in> set (eventEmitter st) \<Longrightarrow> list_all (\<lambda>l. e = (i, l) \<longrightarrow> \<not> settles r l) ls \<Longrightarrow>
   e \<in> set (eventEmitter (fold (listener_step i r) ls st))"
proof (induction ls arbitrary: st)
  case Nil
  then show ?case by simp
next
  case (Cons l ls)
  have "e \<in> set (eventEmitter (listener_step i r l st))"
    using Cons.prems by (cases "e = (i, l)") (simp_all add: listener_step_emitter)
  with Cons show ?case by simp
qed

lemma distinct_map_remove1:
  "distinct (map f xs) \<Longrightarrow> distinct (map f (remove1 x xs))"
proof (induction xs)
  case Nil
  then show ?case by simp
next
  case (Cons y ys)
  have "f ` set (remove1 x ys) \<subseteq> f ` set ys"
    using set_remove1_subset [of x ys] by auto
  with Cons show ?case by auto
qed

lemma handles_listener_step:
  "distinct (handles st) \<Longrightarrow> distinct (handles (listener_step i r l st))"
  using distinct_map_remove1 [of "\<lambda>e. promise (snd e)" "rev (eventEmitter st)" "(i, l)"]
  by (simp add: handles_def listener_step_emitter rev_map [symmetric])

lemma handles_subset_call:
  "set (handles (listener_step i r l st)) \<subseteq> set (handles st)"
  using listener_step_subset [of i r l st] by (auto simp add: handles_def)

lemma wf_listener_step: "wf_state st \<Longrightarrow> wf_state (listener_step i r l st)"
  using handles_subset_call [of i r l st]
  by (auto simp add: wf_state_def handles_listener_step list_all_iff)

lemma wf_fold_call: "wf_state st \<Longrightarrow> wf_state (fold (listener_step i r) ls st)"
  by (induction ls arbitrary: st) (simp_all add: wf_listener_step)

lemma call_listeners_snd:
  "snd (call_listeners i r ls st) =
     fold (listener_step i r) (takeWhile (\<lambda>l. \<not> throws r l) ls) st"
proof (induction ls arbitrary: st)
  case Nil
  then show ?case by simp
next
  case (Cons l ls)
  show ?case
  proof (cases "throws r l")
    case True
    then have "listener_call i r l st = (Some TypeError, st)"
      by (simp add: listener_call_def throws_def)
    with True show ?thesis by simp
  next
    case False
    then have "listener_call i r l st = (None, listener_step i r l st)"
      using listener_call_fst [of i r l st] by (simp add: listener_step_def prod_eq_iff)
    with False Cons show ?thesis by simp
  qed
qed

lemma call_listeners_fst:
  "fst (call_listeners i r ls st) =
     (if list_all (\<lambda>l. \<not> throws r l) ls then None else Some TypeError)"
proof (induction ls arbitrary: st)
  case Nil
  then show ?case by simp
next
  case (Cons l ls)
  show ?case
  proof (cases "throws r l")
    case True
    then have "listener_call i r l st = (Some TypeError, st)"
      by (simp add: listener_call_def throws_def)
    with True show ?thesis by simp
  next
    case False
    then have "listener_call i r l st = (None, listener_step i r l st)"
      using listener_call_fst [of i r l st] by (simp add: listener_step_def prod_eq_iff)
    with False Cons show ?thesis by simp
  qed
qed

lemma emit_snd:
  "snd (emit i r st) =
     fold (listener_step i r) (takeWhile (\<lambda>l. \<not> throws r l) (listeners_of i st)) st"
  by (simp add: emit_def call_listeners_snd)

lemma emit_fst:
  "fst (emit i r st) =
     (if list_all (\<lambda>l. \<not> throws r l) (listeners_of i st) then None else Some TypeError)"
  by (simp add: emit_def call_listeners_fst)

lemma wf_emit: "wf_state st \<Longrightarrow> wf_state (snd (emit i r st))"
  by (simp add: emit_snd wf_fold_call)

lemma fold_call_removed:
  "l \<in> set ls \<Longrightarrow> settles r l \<Longrightarrow> distinct (eventEmitter st) \<Longrightarrow>
   (i, l) \<notin> set (eventEmitter (fold (listener_step i r) ls st))"
proof (induction ls arbitrary: st)
  case Nil
  then show ?case by simp
next
  case (Cons x ls)
  have d: "distinct (eventEmitter (listener_step i r x st))"
    using Cons.prems by (simp add: listener_step_emitter)
  show ?case
  proof (cases "x = l")
    case True
    have "(i, l) \<notin> set (eventEmitter (listener_step i r l st))"
      using Cons.prems by (simp add: listener_step_emitter)
    with fold_call_subset [of i r ls "listener_step i r l st"] True show ?thesis
      by auto
  next
    case False
    with Cons.prems have "l \<in> set ls" by simp
    from Cons.IH [OF this Cons.prems(2) d] show ?thesis by simp
  qed
qed

lemma emit_frame [simp]:
  "logOutput (snd (emit i r st)) = logOutput st"
  "ws (snd (emit i r st)) = ws st"
  "repeatingQueries (snd (emit i r st)) = repeatingQueries st"
  "length (promises (snd (emit i r st))) = length (promises st)"
  by (simp_all add: emit_snd)

lemma emit_settled:
  "promises st ! g \<noteq> Pending \<Longrightarrow> promises (snd (emit i r st)) ! g = promises st ! g"
  by (simp add: emit_snd fold_call_settled)

lemma emit_subset: "set (eventEmitter (snd (emit i r st))) \<subseteq> set (eventEmitter st)"
  by (simp add: emit_snd fold_call_subset)

lemma listeners_of_mem: "l \<in> set (listeners_of i st) \<longleftrightarrow> (i, l) \<in> set (eventEmitter st)"
  by (force simp add: listeners_of_def)

lemma listeners_of_distinct:
  "distinct (handles st) \<Longrightarrow> distinct (map promise (listeners_of i st))"
  using distinct_map_filter [of "\<lambda>e. promise (snd e)" "eventEmitter st" "\<lambda>e. fst e = i"]
  by (simp add: handles_def listeners_of_def comp_def)

lemma handles_unique:
  "distinct (handles st) \<Longrightarrow> e \<in> set (eventEmitter st) \<Longrightarrow> e' \<in> set (eventEmitter st) \<Longrightarrow>
   promise (snd e) = promise (snd e') \<Longrightarrow> e = e'"
  by (auto simp add: handles_def distinct_map dest: inj_onD)

lemma wf_handle_bound:
  "wf_state st \<Longrightarrow> (i, l) \<in> set (eventEmitter st) \<Longrightarrow> promise l < length (promises st)"
  by (force simp add: wf_state_def handles_def list_all_iff)

text \<open>Which listeners a call of \<open>emit\<close> reaches.\<close>

lemma reached_all:
  "convertible r \<Longrightarrow> calm i st \<Longrightarrow>
   takeWhile (\<lambda>l. \<not> throws r l) (listeners_of i st) = listeners_of i st"
  by (simp add: calm_def throws_def list_all_iff)

lemma reached_none: "\<not> convertible r \<Longrightarrow> takeWhile (\<lambda>l. \<not> throws r l) ls = []"
  by (cases ls) (simp_all add: throws_def)

lemma emit_unheard: "\<not> convertible r \<Longrightarrow> snd (emit i r st) = st"
  by (simp add: emit_snd reached_none)

lemma emit_heard:
  "convertible r \<Longrightarrow> calm i st \<Longrightarrow>
   snd (emit i r st) = fold (listener_step i r) (listeners_of i st) st"
  by (simp add: emit_snd reached_all)

lemma emit_returns: "convertible r \<Longrightarrow> calm i st \<Longrightarrow> fst (emit i r st) = None"
  by (simp add: emit_fst calm_def throws_def list_all_iff)

lemma emit_throws: "\<not> convertible r \<Longrightarrow> listeners_of i st \<noteq> [] \<Longrightarrow> fst (emit i r st) = Some TypeError"
  by (cases "listeners_of i st") (simp_all add: emit_fst throws_def)

lemma emit_pending:
  assumes "wf_state st" and "(i, l) \<in> set (eventEmitter st)" and "promises st ! promise l = Pending"
    and "calm i st"
  shows "promises (snd (emit i r st)) ! promise l = verdict r l"
proof (cases "convertible r")
  case True
  show ?thesis
    unfolding emit_heard [OF True assms(4)]
  proof (rule fold_call_pending)
    show "l \<in> set (listeners_of i st)"
      using assms(2) by (simp add: listeners_of_mem)
    show "distinct (map promise (listeners_of i st))"
      using assms(1) by (simp add: wf_state_def listeners_of_distinct)
    show "promise l < length (promises st)"
      using assms(1,2) by (rule wf_handle_bound)
    show "promises st ! promise l = Pending"
      by (rule assms(3))
  qed
next
  case False
  with assms(3) show ?thesis
    by (simp add: emit_unheard verdict_def)
qed

lemma emit_unregistered:
  "g \<notin> set (handles st) \<Longrightarrow> promises (snd (emit i r st)) ! g = promises st ! g"
  unfolding emit_snd
  by (rule fold_call_other) (force simp add: handles_def listeners_of_def dest: set_takeWhileD)

lemma emit_bystander:
  assumes "wf_state st" and "(i, l) \<in> set (eventEmitter st)" and "j \<noteq> i \<or> \<not> settles r l"
  shows "promises (snd (emit j r st)) ! promise l = promises st ! promise l"
    and "(i, l) \<in> set (eventEmitter (snd (emit j r st)))"
proof -
  let ?ls = "takeWhile (\<lambda>l. \<not> throws r l) (listeners_of j st)"
  have same: "x = l \<and> j = i" if "x \<in> set ?ls" and "promise x = promise l" for x
  proof -
    from that(1) have "(j, x) \<in> set (eventEmitter st)"
      by (auto simp add: listeners_of_mem [symmetric] dest: set_takeWhileD)
    with handles_unique [of st "(j, x)" "(i, l)"] assms(1,2) that(2) show ?thesis
      by (simp add: wf_state_def)
  qed
  show "promises (snd (emit j r st)) ! promise l = promises st ! promise l"
    unfolding emit_snd
    by (rule fold_call_idle) (use same assms(3) in \<open>auto simp add: list_all_iff\<close>)
  show "(i, l) \<in> set (eventEmitter (snd (emit j r st)))"
    unfolding emit_snd
    by (rule fold_call_keeps [OF assms(2)]) (use same assms(3) in \<open>auto simp add: list_all_iff\<close>)
qed

lemma emit_removed:
  assumes "wf_state st" and "(i, l) \<in> set (eventEmitter st)" and "settles r l" and "calm i st"
  shows "promise l \<notin> set (handles (snd (emit i r st)))"
proof
  have c: "convertible r"
    using assms(3) by (simp add: settles_def)
  assume "promise l \<in> set (handles (snd (emit i r st)))"
  then obtain e where e: "e \<in> set (eventEmitter (snd (emit i r st)))"
    and p: "promise (snd e) = promise l"
    by (auto simp add: handles_def)
  from e emit_subset [of i r st] have "e \<in> set (eventEmitter st)"
    by auto
  with handles_unique [of st e "(i, l)"] assms(1,2) p have "e = (i, l)"
    by (simp add: wf_state_def)
  moreover have "(i, l) \<notin> set (eventEmitter (snd (emit i r st)))"
    unfolding emit_heard [OF c assms(4)]
  proof (rule fold_call_removed)
    show "l \<in> set (listeners_of i st)"
      using assms(2) by (simp add: listeners_of_mem)
    show "settles r l" by (rule assms(3))
    show "distinct (eventEmitter st)"
      using assms(1) by (simp add: wf_state_def handles_def distinct_map)
  qed
  ultimately show False using e by simp
qed

lemma listeners_of_emit: "set (listeners_of j (snd (emit i r st))) \<subseteq> set (listeners_of j st)"
  using emit_subset [of i r st] by (auto simp add: listeners_of_mem)

lemma calm_emit: "calm j st \<Longrightarrow> calm j (snd (emit i r st))"
  using listeners_of_emit [of j i r st] by (auto simp add: calm_def list_all_iff)

lemma wf_dispatch_all: "wf_state st \<Longrightarrow> wf_state (dispatch_all rs st)"
  by (induction rs st rule: dispatch_all.induct) (simp_all add: wf_emit)

lemma calm_dispatch_all: "calm j st \<Longrightarrow> calm j (dispatch_all rs st)"
  by (induction rs st rule: dispatch_all.induct) (simp_all add: calm_emit)

lemma waitForResponse_fst [simp]: "fst (waitForResponse i e rep st) = length (promises st)"
  by (simp add: waitForResponse_def Let_def)

lemma waitForResponse_snd [simp]:
  "eventEmitter (snd (waitForResponse i e rep st)) =
     eventEmitter st @ [(i, \<lparr>promise = length (promises st), expectedResponse = e, repeating = rep\<rparr>)]"
  "promises (snd (waitForResponse i e rep st)) = promises st @ [Pending]"
  "console (snd (waitForResponse i e rep st)) = console st"
  "logOutput (snd (waitForResponse i e rep st)) = logOutput st"
  "ws (snd (waitForResponse i e rep st)) = ws st"
  "repeatingQueries (snd (waitForResponse i e rep st)) = repeatingQueries st"
  by (simp_all add: waitForResponse_def Let_def)

lemma wf_waitForResponse: "wf_state st \<Longrightarrow> wf_state (snd (waitForResponse i e rep st))"
  by (auto simp add: wf_state_def handles_def list_all_iff less_Suc_eq)

lemma listeners_of_waitForResponse:
  "listeners_of j (snd (waitForResponse i e rep st)) =
     (if j = i
      then listeners_of j st @ [\<lparr>promise = length (promises st), expectedResponse = e, repeating = rep\<rparr>]
      else listeners_of j st)"
  by (simp add: listeners_of_def)

lemma calm_waitForResponse:
  "calm j st \<Longrightarrow> j \<noteq> i \<or> convertible e \<Longrightarrow> calm j (snd (waitForResponse i e rep st))"
  by (auto simp add: calm_def listeners_of_waitForResponse)

text \<open>A waiter that has just been registered, and the first reply dispatched for its id.\<close>

lemma waiter_first_reply:
  fixes st :: state and e :: jsval and rep :: bool and i :: string
  assumes "wf_state st" and "calm i st" and "convertible e"
  defines "l \<equiv> \<lparr>promise = length (promises st), expectedResponse = e, repeating = rep\<rparr>"
  defines "st1 \<equiv> snd (waitForResponse i e rep st)"
  shows "promises st1 ! length (promises st) = Pending"
    and "promises (snd (emit i r st1)) ! length (promises st) = verdict r l"
    and "settles r l \<Longrightarrow> length (promises st) \<notin> set (handles (snd (emit i r st1)))"
    and "\<not> settles r l \<Longrightarrow> (i, l) \<in> set (eventEmitter (snd (emit i r st1)))"
proof -
  have wf1: "wf_state st1"
    using assms(1) by (simp add: st1_def wf_waitForResponse)
  have calm1: "calm i st1"
    using assms(2,3) by (simp add: st1_def calm_waitForResponse)
  have mem: "(i, l) \<in> set (eventEmitter st1)"
    by (simp add: st1_def l_def)
  show pend: "promises st1 ! length (promises st) = Pending"
    by (simp add: st1_def)
  have h: "promise l = length (promises st)"
    by (simp add: l_def)
  from emit_pending [OF wf1 mem _ calm1, of r] pend h
  show "promises (snd (emit i r st1)) ! length (promises st) = verdict r l"
    by simp
  from emit_removed [OF wf1 mem _ calm1, of r] h
  show "settles r l \<Longrightarrow> length (promises st) \<notin> set (handles (snd (emit i r st1)))"
    by simp
  from emit_bystander(2) [OF wf1 mem, of i r]
  show "\<not> settles r l \<Longrightarrow> (i, l) \<in> set (eventEmitter (snd (emit i r st1)))"
    by simp
qed

lemma fold_call_emitter_snoc:
  "list_all (\<lambda>x. x \<noteq> l) ls \<Longrightarrow> eventEmitter st' = eventEmitter st @ [(i, l)] \<Longrightarrow>
   eventEmitter (fold (listener_step i r) ls st') =
     eventEmitter (fold (listener_step i r) ls st) @ [(i, l)]"
proof (induction ls arbitrary: st st')
  case Nil
  then show ?case by simp
next
  case (Cons x ls)
  from Cons.prems have "x \<noteq> l" by simp
  with Cons.prems(2)
  have "eventEmitter (listener_step i r x st') = eventEmitter (listener_step i r x st) @ [(i, l)]"
    by (simp add: listener_step_emitter)
  with Cons.IH [of "listener_step i r x st'" "listener_step i r x st"] Cons.prems(1)
  show ?case by simp
qed

lemma waiter_no_residue:
  assumes "wf_state st" and "calm i st"
    and "settles r \<lparr>promise = length (promises st), expectedResponse = e, repeating = rep\<rparr>"
  shows "eventEmitter (snd (emit i r (snd (waitForResponse i e rep st)))) =
           eventEmitter (snd (emit i r st))"
proof -
  let ?l = "\<lparr>promise = length (promises st), expectedResponse = e, repeating = rep\<rparr>"
  let ?st1 = "snd (waitForResponse i e rep st)"
  have c: "convertible r" "convertible e"
    using assms(3) by (simp_all add: settles_def)
  have calm1: "calm i ?st1"
    using assms(2) c(2) by (simp add: calm_waitForResponse)
  have ls: "listeners_of i ?st1 = listeners_of i st @ [?l]"
    by (simp add: listeners_of_def)
  have old: "list_all (\<lambda>x. x \<noteq> ?l) (listeners_of i st)"
    using assms(1) wf_handle_bound [where st=st and i=i]
    by (fastforce simp add: list_all_iff listeners_of_mem)
  have "eventEmitter (fold (listener_step i r) (listeners_of i st) ?st1) =
          eventEmitter (fold (listener_step i r) (listeners_of i st) st) @ [(i, ?l)]"
    by (rule fold_call_emitter_snoc [OF old]) simp
  with assms(3) show ?thesis
    by (simp add: emit_heard [OF c(1) calm1] emit_heard [OF c(1) assms(2)] ls listener_step_emitter)
qed

lemma settle_promises:
  "promises (settle h out st) =
     (if h < length (promises st) \<and> promises st ! h = Pending then (promises st)[h := out]
      else promises st)"
  by (simp add: settle_def)

lemma listener_call_promises_snoc:
  "promise l < length (promises st) \<Longrightarrow> promises st' = promises st @ [x] \<Longrightarrow>
   promises (listener_step i r l st') = promises (listener_step i r l st) @ [x]"
  by (simp add: listener_step_eq Let_def settle_promises nth_append list_update_append1)

lemma snoc_nth_length: "length xs = n \<Longrightarrow> (xs @ [x]) ! n = x"
  by auto

lemma fold_call_promises_snoc:
  "list_all (\<lambda>l. promise l < length (promises st)) ls \<Longrightarrow> promises st' = promises st @ [x] \<Longrightarrow>
   promises (fold (listener_step i r) ls st') = promises (fold (listener_step i r) ls st) @ [x]"
proof (induction ls arbitrary: st st')
  case Nil
  then show ?case by simp
next
  case (Cons l ls)
  from Cons.prems
  have "promises (listener_step i r l st') = promises (listener_step i r l st) @ [x]"
    by (simp add: listener_call_promises_snoc)
  with Cons.IH [of "listener_step i r l st" "listener_step i r l st'"] Cons.prems(1)
  show ?case by simp
qed

lemma listener_call_last:
  "promises m = ps @ [Pending] \<Longrightarrow> promise l = length ps \<Longrightarrow>
   promises (listener_step i r l m) = ps @ [verdict r l]"
  by (simp add: listener_step_eq Let_def settle_promises verdict_def settles_def throws_def)

lemma waiter_first_reply_promises:
  assumes "wf_state st" and "calm i st" and "convertible e"
  shows "promises (snd (emit i r (snd (waitForResponse i e rep st)))) =
           promises (snd (emit i r st)) @
             [verdict r \<lparr>promise = length (promises st), expectedResponse = e, repeating = rep\<rparr>]"
proof (cases "convertible r")
  case False
  then show ?thesis
    by (simp add: emit_unheard verdict_def)
next
  case True
  let ?l = "\<lparr>promise = length (promises st), expectedResponse = e, repeating = rep\<rparr>"
  let ?st1 = "snd (waitForResponse i e rep st)"
  let ?mid = "fold (listener_step i r) (listeners_of i st) ?st1"
  have calm1: "calm i ?st1"
    using assms(2,3) by (simp add: calm_waitForResponse)
  have ls: "listeners_of i ?st1 = listeners_of i st @ [?l]"
    by (simp add: listeners_of_def)
  have old: "list_all (\<lambda>l. promise l < length (promises st)) (listeners_of i st)"
    using assms(1) wf_handle_bound [where st=st and i=i]
    by (simp add: list_all_iff listeners_of_mem)
  have mid: "promises ?mid = promises (fold (listener_step i r) (listeners_of i st) st) @ [Pending]"
    by (rule fold_call_promises_snoc [OF old]) simp
  have "promises (listener_step i r ?l ?mid) =
          promises (fold (listener_step i r) (listeners_of i st) st) @ [verdict r ?l]"
    by (rule listener_call_last [OF mid]) simp
  then show ?thesis
    by (simp add: emit_heard [OF True calm1] emit_heard [OF True assms(2)] ls)
qed

lemma waiter_first_reply_core:
  assumes "wf_state st" and "calm i st"
    and "settles r \<lparr>promise = length (promises st), expectedResponse = e, repeating = rep\<rparr>"
  shows "core (snd (emit i r (snd (waitForResponse i e rep st)))) =
           (eventEmitter (snd (emit i r st)),
            promises (snd (emit i r st)) @
              [verdict r \<lparr>promise = length (promises st), expectedResponse = e, repeating = rep\<rparr>],
            logOutput st, ws st, repeatingQueries st)"
proof -
  have "convertible e"
    using assms(3) by (simp add: settles_def)
  from waiter_first_reply_promises [OF assms(1,2) this] waiter_no_residue [OF assms]
  show ?thesis
    by (simp add: core_def)
qed

lemma bystander_dispatch_all:
  assumes "wf_state st" and "(i, l) \<in> set (eventEmitter st)"
    and "list_all (\<lambda>d. fst d \<noteq> i \<or> \<not> settles (snd d) l) rs"
  shows "promises (dispatch_all rs st) ! promise l = promises st ! promise l \<and>
         (i, l) \<in> set (eventEmitter (dispatch_all rs st))"
  using assms
proof (induction rs st rule: dispatch_all.induct)
  case (1 st)
  then show ?case by simp
next
  case (2 j r rs st)
  from "2.prems" have c: "j \<noteq> i \<or> \<not> settles r l" by simp
  note b = emit_bystander [OF "2.prems"(1,2) c]
  from "2.IH" [OF wf_emit [OF "2.prems"(1)] b(2)] "2.prems"(3) b(1)
  show ?case by simp
qed

text \<open>The console, when logging is on: one line for each listener, in the order of the calls.\<close>

lemma fold_call_console_order:
  "logOutput st \<Longrightarrow> list_all (\<lambda>l. \<not> throws r l) ls \<Longrightarrow>
   console (fold (listener_step i r) ls st) =
     console st @ map (\<lambda>l. LogListener r (expectedResponse l) (repeating l)) ls"
proof (induction ls arbitrary: st)
  case Nil
  then show ?case by simp
next
  case (Cons l ls)
  from Cons.prems have "console (listener_step i r l st) =
      console st @ [LogListener r (expectedResponse l) (repeating l)]"
    by (simp add: listener_step_eq settle_def logToConsole_def console_log_def removeListener_def)
  with Cons.IH [of "listener_step i r l st"] Cons.prems show ?case
    by simp
qed

lemma emit_console_order:
  "logOutput st \<Longrightarrow> convertible r \<Longrightarrow> calm i st \<Longrightarrow>
   console (snd (emit i r st)) =
     console st @ map (\<lambda>l. LogListener r (expectedResponse l) (repeating l)) (listeners_of i st)"
  by (simp add: emit_heard fold_call_console_order calm_def throws_def list_all_iff)

lemmas run_defs =
  open_helper_def new_helper_def waitForResponse_def waitForRepeatResponse_def waitForEvent_def
  emit_def listeners_of_def listener_call_def logToConsole_def console_log_def resolve_def
  reject_def settle_def removeListener_def strict_eq_def Let_def handles_def wf_state_def
  onmessage_def js_or_def

lemma wf_open_helper: "wf_state (open_helper debug)"
  by (simp add: wf_state_def handles_def open_helper_def new_helper_def)

lemma calm_open_helper: "calm i (open_helper debug)"
  by (simp add: calm_def listeners_of_def open_helper_def new_helper_def)

lemma strict_eq_refl: "truthy e \<Longrightarrow> is_primitive e \<Longrightarrow> strict_eq e e"
  by (cases e) (simp_all add: strict_eq_def)

lemma strict_eq_imp_eq: "strict_eq e r \<Longrightarrow> r = e"
  by (simp add: strict_eq_def)

lemma primitive_convertible: "is_primitive e \<Longrightarrow> convertible e"
  by (cases e) simp_all

lemma falsy_convertible: "\<not> truthy e \<Longrightarrow> convertible e"
  by (cases e) simp_all

lemma listener_step_core:
  "core st = core st' \<Longrightarrow> core (listener_step i r l st) = core (listener_step i r l st')"
  by (simp add: core_def listener_step_eq Let_def settle_promises)

lemma fold_call_core:
  "core st = core st' \<Longrightarrow>
   core (fold (listener_step i r) ls st) = core (fold (listener_step i r) ls st')"
proof (induction ls arbitrary: st st')
  case Nil
  then show ?case by simp
next
  case (Cons l ls)
  from Cons.IH [OF listener_step_core [OF Cons.prems]] show ?case
    by simp
qed

lemma emit_core:
  assumes "core st = core st'"
  shows "core (snd (emit i r st)) = core (snd (emit i r st'))"
    and "fst (emit i r st) = fst (emit i r st')"
proof -
  from assms have ls: "listeners_of i st = listeners_of i st'"
    by (simp add: core_def listeners_of_def)
  with fold_call_core [OF assms] show "core (snd (emit i r st)) = core (snd (emit i r st'))"
    by (simp add: emit_snd)
  from ls show "fst (emit i r st) = fst (emit i r st')"
    by (simp add: emit_fst)
qed

lemma listener_step_console: "set (console st) \<subseteq> set (console (listener_step i r l st))"
  by (auto simp add: listener_step_eq Let_def settle_def logToConsole_def console_log_def)

lemma fold_call_console:
  "set (console st) \<subseteq> set (console (fold (listener_step i r) ls st))"
proof (induction ls arbitrary: st)
  case Nil
  then show ?case by simp
next
  case (Cons l ls)
  from Cons.IH [of "listener_step i r l st"] listener_step_console [of st i r l]
  show ?case by auto
qed

lemma emit_console: "set (console st) \<subseteq> set (console (snd (emit i r st)))"
  by (simp add: emit_snd fold_call_console)

text \<open>The handler of inbound messages.\<close>

lemma onmessage_blocked:
  "truthy (reply_error m) \<Longrightarrow> \<not> convertible (reply_error m) \<Longrightarrow>
   onmessage m st = (Some TypeError, logToConsole (LogReceived m) st)"
  by (simp add: onmessage_def Let_def)

lemma onmessage_passes:
  "\<not> truthy (reply_error m) \<or> convertible (reply_error m) \<Longrightarrow>
   onmessage m st =
     emit (reply_id m) (js_or (reply_info m) (reply_data m))
       (if truthy (reply_error m)
        then console_log (LogError (reply_id m) (reply_error m)) (logToConsole (LogReceived m) st)
        else logToConsole (LogReceived m) st)"
  by (auto simp add: onmessage_def Let_def)

lemma onmessage_core:
  "\<not> truthy (reply_error m) \<or> convertible (reply_error m) \<Longrightarrow>
   core (snd (onmessage m st)) = core (snd (emit (reply_id m) (js_or (reply_info m) (reply_data m)) st))
   \<and> fst (onmessage m st) = fst (emit (reply_id m) (js_or (reply_info m) (reply_data m)) st)"
  unfolding onmessage_passes
  by (rule conjI; rule emit_core) (simp_all add: core_def)

lemma onmessage_blocked_core:
  "truthy (reply_error m) \<Longrightarrow> \<not> convertible (reply_error m) \<Longrightarrow> core (snd (onmessage m st)) = core st"
  by (simp add: onmessage_blocked core_def)

lemma onmessage_frame [simp]:
  "logOutput (snd (onmessage m st)) = logOutput st"
  "ws (snd (onmessage m st)) = ws st"
  "repeatingQueries (snd (onmessage m st)) = repeatingQueries st"
  "length (promises (snd (onmessage m st))) = length (promises st)"
  by (simp_all add: onmessage_def Let_def)

lemma onmessage_settled:
  "promises st ! g \<noteq> Pending \<Longrightarrow> promises (snd (onmessage m st)) ! g = promises st ! g"
  by (simp add: onmessage_def Let_def emit_settled)

lemma onmessage_subset: "set (eventEmitter (snd (onmessage m st))) \<subseteq> set (eventEmitter st)"
proof (cases "truthy (reply_error m) \<and> \<not> convertible (reply_error m)")
  case True
  then show ?thesis by (simp add: onmessage_blocked)
next
  case False
  then have p: "\<not> truthy (reply_error m) \<or> convertible (reply_error m)"
    by simp
  from onmessage_core [OF p, of st] emit_subset [of "reply_id m" "js_or (reply_info m) (reply_data m)" st]
  show ?thesis by (simp add: core_def)
qed

lemma wf_console [simp]:
  "wf_state (logToConsole e st) = wf_state st"
  "wf_state (console_log e st) = wf_state st"
  by (simp_all add: wf_state_def handles_def)

lemma calm_console [simp]:
  "calm i (logToConsole e st) = calm i st"
  "calm i (console_log e st) = calm i st"
  by (simp_all add: calm_def listeners_of_def)

lemma wf_onmessage: "wf_state st \<Longrightarrow> wf_state (snd (onmessage m st))"
  by (simp add: onmessage_def Let_def wf_emit)

lemma calm_onmessage: "calm j st \<Longrightarrow> calm j (snd (onmessage m st))"
  by (simp add: onmessage_def Let_def calm_emit)

lemma onmessage_pending:
  assumes "wf_state st" and "(reply_id m, l) \<in> set (eventEmitter st)"
    and "promises st ! promise l = Pending" and "calm (reply_id m) st"
    and "\<not> truthy (reply_error m) \<or> convertible (reply_error m)"
  shows "promises (snd (onmessage m st)) ! promise l = verdict (js_or (reply_info m) (reply_data m)) l"
  using onmessage_core [OF assms(5), of st] emit_pending [OF assms(1-4)]
  by (simp add: core_def)

lemma onmessage_bystander:
  assumes "wf_state st" and "(i, l) \<in> set (eventEmitter st)"
    and "reply_id m \<noteq> i \<or> \<not> settles (js_or (reply_info m) (reply_data m)) l"
  shows "promises (snd (onmessage m st)) ! promise l = promises st ! promise l"
    and "(i, l) \<in> set (eventEmitter (snd (onmessage m st)))"
proof -
  let ?r = "js_or (reply_info m) (reply_data m)"
  have "promises (snd (onmessage m st)) ! promise l = promises st ! promise l \<and>
        (i, l) \<in> set (eventEmitter (snd (onmessage m st)))"
  proof (cases "truthy (reply_error m) \<and> \<not> convertible (reply_error m)")
    case True
    with assms(2) show ?thesis
      by (simp add: onmessage_blocked)
  next
    case False
    then have p: "\<not> truthy (reply_error m) \<or> convertible (reply_error m)"
      by simp
    from onmessage_core [OF p, of st] emit_bystander [OF assms(1,2), of "reply_id m" ?r] assms(3)
    show ?thesis
      by (simp add: core_def)
  qed
  then show "promises (snd (onmessage m st)) ! promise l = promises st ! promise l"
    and "(i, l) \<in> set (eventEmitter (snd (onmessage m st)))"
    by simp_all
qed

text \<open>Sending.\<close>

lemma send_preserves [simp]:
  "logOutput (snd (send i url f e st)) = logOutput st"
  "repeatingQueries (snd (send i url f e st)) = repeatingQueries st"
  by (simp_all add: send_def Let_def waitForResponse_def split: option.split)

lemma wf_send: "wf_state st \<Longrightarrow> wf_state (snd (send i url f e st))"
  by (auto simp add: send_def Let_def waitForResponse_def wf_state_def handles_def list_all_iff
      less_Suc_eq logToConsole_def console_log_def split: option.split)

lemma calm_send:
  "calm j st \<Longrightarrow> j \<noteq> i \<or> convertible e \<Longrightarrow> calm j (snd (send i url f e st))"
  by (auto simp add: send_def Let_def waitForResponse_def calm_def listeners_of_def
      logToConsole_def console_log_def split: option.split)

lemma send_open:
  assumes "is_open st"
  shows "fst (send i url f e st) = Inr (length (promises st))"
    and "eventEmitter (snd (send i url f e st)) =
           eventEmitter st @
             [(i, \<lparr>promise = length (promises st), expectedResponse = e, repeating = False\<rparr>)]"
    and "promises (snd (send i url f e st)) = promises st @ [Pending]"
    and "transmitted (snd (send i url f e st)) =
           transmitted st @ [\<lparr>msg_id = i, msg_q = url, msg_repeat = freq_repeat f\<rparr>]"
    and "is_open (snd (send i url f e st))"
proof -
  from assms obtain w where w: "ws st = Some w" "readyState w = OPEN"
    by (auto simp add: is_open_def split: option.splits)
  note defs = send_def Let_def waitForResponse_def is_open_def transmitted_def ws_send_def
    OPEN_def CONNECTING_def logToConsole_def console_log_def
  show "fst (send i url f e st) = Inr (length (promises st))"
    using w by (simp add: defs)
  show "eventEmitter (snd (send i url f e st)) =
           eventEmitter st @
             [(i, \<lparr>promise = length (promises st), expectedResponse = e, repeating = False\<rparr>)]"
    using w by (simp add: defs)
  show "promises (snd (send i url f e st)) = promises st @ [Pending]"
    using w by (simp add: defs)
  show "transmitted (snd (send i url f e st)) =
           transmitted st @ [\<lparr>msg_id = i, msg_q = url, msg_repeat = freq_repeat f\<rparr>]"
    using w by (simp add: defs)
  show "is_open (snd (send i url f e st))"
    using w by (simp add: defs)
qed

lemma send_reply:
  assumes "wf_state st" and "is_open st" and "reply_id m = i" and "calm i st" and "convertible e"
    and "\<not> truthy (reply_error m) \<or> convertible (reply_error m)"
  shows "outcome_of (fst (send i url f e st)) (snd (send i url f e st)) = Pending"
    and "outcome_of (fst (send i url f e st)) (snd (onmessage m (snd (send i url f e st)))) =
           verdict (js_or (reply_info m) (reply_data m))
             \<lparr>promise = length (promises st), expectedResponse = e, repeating = False\<rparr>"
proof -
  let ?l = "\<lparr>promise = length (promises st), expectedResponse = e, repeating = False\<rparr>"
  let ?st1 = "snd (send i url f e st)"
  note so = send_open [OF assms(2), where i=i and url=url and f=f and e=e]
  have wf1: "wf_state ?st1"
    using assms(1) by (rule wf_send)
  have calm1: "calm (reply_id m) ?st1"
    using assms(3,4,5) by (simp add: calm_send)
  have mem: "(reply_id m, ?l) \<in> set (eventEmitter ?st1)"
    by (simp add: so(2) assms(3))
  have pend: "promises ?st1 ! promise ?l = Pending"
    by (simp add: so(3))
  show "outcome_of (fst (send i url f e st)) ?st1 = Pending"
    by (simp add: outcome_of_def so(1) so(3))
  from onmessage_pending [OF wf1 mem pend calm1 assms(6)]
  show "outcome_of (fst (send i url f e st)) (snd (onmessage m ?st1)) =
          verdict (js_or (reply_info m) (reply_data m)) ?l"
    by (simp add: outcome_of_def so(1) so(3))
qed

text \<open>Later registrations and dispatches.\<close>

lemma act_length: "length (promises st) \<le> length (promises (act a st))"
  by (cases a) simp_all

lemma act_settled:
  "h < length (promises st) \<Longrightarrow> promises st ! h \<noteq> Pending \<Longrightarrow>
   promises (act a st) ! h = promises st ! h"
  by (cases a) (simp_all add: emit_settled nth_append)

lemma settled_forever:
  "h < length (promises st) \<Longrightarrow> promises st ! h \<noteq> Pending \<Longrightarrow>
   promises (fold act as st) ! h = promises st ! h"
proof (induction as arbitrary: st)
  case Nil
  then show ?case by simp
next
  case (Cons a as)
  from Cons.prems act_length [of st a] have "h < length (promises (act a st))"
    by simp
  with Cons.IH [of "act a st"] Cons.prems show ?case
    by (simp add: act_settled)
qed

lemma wf_act: "wf_state st \<Longrightarrow> wf_state (act a st)"
  by (cases a) (simp_all add: wf_waitForResponse wf_emit)

text \<open>The registry of repeating queries.\<close>

lemma map_of_obj_set: "k \<noteq> ''__proto__'' \<Longrightarrow> map_of (obj_set k v kvs) k = Some v"
proof (cases "map_of kvs k")
  case None
  assume "k \<noteq> ''__proto__''"
  with None show ?thesis by (simp add: obj_set_def map_add_def)
next
  case (Some a)
  assume k: "k \<noteq> ''__proto__''"
  have "map_of (map (\<lambda>e. if fst e = k then (k, v) else e) xs) k = Some v"
    if "map_of xs k \<noteq> None" for xs :: "(string \<times> int) list"
    using that by (induction xs) auto
  with Some k show ?thesis by (simp add: obj_set_def)
qed

lemma map_of_obj_set_other: "k' \<noteq> k \<Longrightarrow> map_of (obj_set k v kvs) k' = map_of kvs k'"
proof -
  assume ne: "k' \<noteq> k"
  have "map_of (map (\<lambda>e. if fst e = k then (k, v) else e) xs) k' = map_of xs k'"
    for xs :: "(string \<times> int) list"
    using ne by (induction xs) auto
  with ne show ?thesis
    by (auto simp add: obj_set_def map_add_def split: option.split)
qed

lemma map_of_obj_delete: "k' \<noteq> k \<Longrightarrow> map_of (obj_delete k kvs) k' = map_of kvs k'"
  by (induction kvs) (auto simp add: obj_delete_def)

lemma obj_set_proto: "obj_set ''__proto__'' v kvs = kvs"
  by (simp add: obj_set_def)

lemma obj_set_keys:
  "map fst (obj_set k v kvs) =
     (if k \<noteq> ''__proto__'' \<and> map_of kvs k = None then map fst kvs @ [k] else map fst kvs)"
  by (auto simp add: obj_set_def comp_def intro!: map_cong)

lemma repeatQuery_registers:
  "i \<noteq> ''__proto__'' \<Longrightarrow> obj_get i (repeatingQueries (snd (repeatQuery i url freq st))) = Some 1"
  by (simp add: repeatQuery_def addRepeatingQueryId_def obj_get_def map_of_obj_set)

lemma repeatQuery_duplicate:
  "obj_get i (repeatingQueries st) = Some 1 \<Longrightarrow> repeatQuery i url freq st = (Inl (DuplicateId i), st)"
  by (simp add: repeatQuery_def addRepeatingQueryId_def)

lemma repeatQuery_keeps:
  "j \<noteq> i \<Longrightarrow> obj_get i (repeatingQueries (snd (repeatQuery j url freq st))) =
     obj_get i (repeatingQueries st)"
  by (simp add: repeatQuery_def addRepeatingQueryId_def obj_get_def map_of_obj_set_other)

lemma removeQuery_keeps:
  "obj_get i (repeatingQueries (snd (removeQuery j st))) = obj_get i (repeatingQueries st)"
  by (simp add: removeQuery_def)

lemma removeQuery_resume_keeps:
  "j \<noteq> i \<Longrightarrow> obj_get i (repeatingQueries (snd (removeQuery_resume j h st))) =
     obj_get i (repeatingQueries st)"
  by (simp add: removeQuery_resume_def obj_get_def map_of_obj_delete split: outcome.split)

lemma fold_onmessage_registry [simp]:
  "repeatingQueries (fold (\<lambda>m s. snd (onmessage m s)) ms st) = repeatingQueries st"
  by (induction ms arbitrary: st) simp_all

text \<open>The invariant is kept by every operation.\<close>

lemma wf_addRepeatingQueryId:
  "wf_state st \<Longrightarrow> addRepeatingQueryId i st = Inr st' \<Longrightarrow> wf_state st'"
  by (auto simp add: addRepeatingQueryId_def wf_state_def handles_def obj_set_keys
      map_of_eq_None_iff split: if_splits)

lemma wf_repeatQuery: "wf_state st \<Longrightarrow> wf_state (snd (repeatQuery i url freq st))"
  by (auto simp add: repeatQuery_def wf_send wf_addRepeatingQueryId split: sum.split)

lemma wf_query: "wf_state st \<Longrightarrow> wf_state (snd (query i url st))"
  by (simp add: query_def wf_send)

lemma wf_queryAll: "wf_state st \<Longrightarrow> wf_state (snd (queryAll i url st))"
  by (simp add: queryAll_def wf_send)

lemma wf_removeQuery: "wf_state st \<Longrightarrow> wf_state (snd (removeQuery i st))"
  by (simp add: removeQuery_def wf_send)

lemma wf_removeQuery_resume: "wf_state st \<Longrightarrow> wf_state (snd (removeQuery_resume i h st))"
  by (auto simp add: removeQuery_resume_def wf_state_def handles_def obj_delete_def
      distinct_map_filter list_all_iff split: outcome.split)

lemma wf_cleanUp_loop: "wf_state st \<Longrightarrow> wf_state (snd (cleanUp_loop ks st))"
proof (induction ks)
  case Nil
  then show ?case by simp
next
  case (Cons k ks)
  from wf_removeQuery [OF Cons.prems, of k] Cons show ?case
    by (auto split: prod.split sum.split)
qed

lemma wf_cleanUpRepeatingQueries: "wf_state st \<Longrightarrow> wf_state (snd (cleanUpRepeatingQueries st))"
  by (simp add: cleanUpRepeatingQueries_def wf_cleanUp_loop)

lemma wf_cleanUp_resume: "wf_state st \<Longrightarrow> wf_state (snd (cleanUp_resume t st))"
proof (cases t)
  case (CleanUpDone out)
  assume "wf_state st"
  with CleanUpDone show ?thesis by simp
next
  case (CleanUpAwait h k ks)
  assume "wf_state st"
  from wf_removeQuery_resume [OF this, of k h] CleanUpAwait show ?thesis
    by (auto simp add: wf_cleanUp_loop split: prod.split outcome.split)
qed

lemma wf_bindToEvent:
  assumes "wf_state st"
  shows "wf_state (snd (bindToEvent i url polling st))"
proof -
  let ?s = "send (prefixEvent @ i) (prefixBind @ url)
              (if \<not> polling then FreqBound else default_freq) JUndefined st"
  have "wf_state (snd ?s)"
    using assms by (rule wf_send)
  then show ?thesis
    unfolding bindToEvent_def by (cases ?s) (auto split: sum.split)
qed

lemma wf_bindToEvent_resume: "wf_state st \<Longrightarrow> wf_state (snd (bindToEvent_resume t st))"
  by (cases t) (auto simp add: Let_def split: outcome.split)

lemma wf_bindToEvent_wake: "wf_state st \<Longrightarrow> wf_state (snd (bindToEvent_wake i url polling t st))"
  by (cases t) (auto simp add: wf_bindToEvent)

text \<open>The clean-up, one step at a time.\<close>

lemma wf_registry:
  "eventEmitter st' = eventEmitter st \<Longrightarrow> promises st' = promises st \<Longrightarrow>
   repeatingQueries st' = obj_delete k (repeatingQueries st) \<Longrightarrow> wf_state st \<Longrightarrow> wf_state st'"
  by (simp add: wf_state_def handles_def obj_delete_def distinct_map_filter list_all_iff)

lemma cleanUp_start:
  assumes "wf_state st" and "is_open st" and "map_of (repeatingQueries st) k \<noteq> None"
  shows "\<exists>h st1. cleanUp_loop (k # ks) st = (CleanUpAwait h k ks, st1) \<and>
           wf_state st1 \<and> is_open st1 \<and> waiting h k st1 \<and>
           repeatingQueries st1 = repeatingQueries st \<and>
           transmitted st1 = transmitted st @ [stop_msg k] \<and>
           (\<forall>j. calm j st \<longrightarrow> calm j st1)"
proof -
  define url where "url = ''/socket.stop('' @ k @ '')''"
  let ?h = "length (promises st)"
  let ?st1 = "snd (send k url (FreqNum (- 1)) (JStr ''stopped'') st)"
  note so = send_open [OF assms(2), where i=k and url=url and f="FreqNum (- 1)"
      and e="JStr ''stopped''"]
  have rq: "removeQuery k st = (Inr ?h, ?st1)"
    using so(1) by (simp add: removeQuery_def prod_eq_iff url_def)
  have loop: "cleanUp_loop (k # ks) st = (CleanUpAwait ?h k ks, ?st1)"
    using assms(3) rq by auto
  have tr: "transmitted ?st1 = transmitted st @ [stop_msg k]"
    using so(4) by (simp add: stop_msg_def url_def)
  have w: "waiting ?h k ?st1"
    by (simp add: waiting_def so(2,3))
  have c: "calm j ?st1" if "calm j st" for j
    using that by (rule calm_send) simp
  from loop wf_send [OF assms(1)] so(5) w tr c show ?thesis
    by (intro exI [of _ ?h] exI [of _ ?st1]) (simp del: cleanUp_loop.simps)
qed

lemma waiting_bound: "wf_state st \<Longrightarrow> waiting h k st \<Longrightarrow> h < length (promises st)"
  using wf_handle_bound [of st k "\<lparr>promise = h, expectedResponse = JStr ''stopped'', repeating = False\<rparr>"]
  by (simp add: waiting_def)

lemma cleanUp_other:
  assumes "wf_state st" and "waiting h k st" and "reply_id m \<noteq> k"
  shows "\<exists>st'. cleanUp_deliver m (CleanUpAwait h k ks, st) = (CleanUpAwait h k ks, st') \<and>
           wf_state st' \<and> waiting h k st' \<and> repeatingQueries st' = repeatingQueries st \<and>
           ws st' = ws st \<and> (\<forall>j. calm j st \<longrightarrow> calm j st')"
proof -
  let ?l = "\<lparr>promise = h, expectedResponse = JStr ''stopped'', repeating = False\<rparr>"
  let ?st' = "snd (onmessage m st)"
  have mem: "(k, ?l) \<in> set (eventEmitter st)" and pend: "promises st ! h = Pending"
    using assms(2) by (simp_all add: waiting_def)
  note b = onmessage_bystander [OF assms(1) mem, of m]
  have w: "waiting h k ?st'"
    using b assms(3) pend by (simp add: waiting_def)
  have wf': "wf_state ?st'"
    using assms(1) by (rule wf_onmessage)
  have "outcome_of (Inr h) ?st' = Pending"
    using w waiting_bound [OF wf' w] by (simp add: outcome_of_def waiting_def)
  then have "cleanUp_deliver m (CleanUpAwait h k ks, st) = (CleanUpAwait h k ks, ?st')"
    by (simp add: removeQuery_resume_def)
  with wf' w show ?thesis
    by (intro exI [of _ ?st']) (simp add: calm_onmessage)
qed

lemma cleanUp_noise:
  assumes "wf_state st" and "waiting h k st" and "list_all (\<lambda>m. reply_id m \<noteq> k) ms"
  shows "\<exists>st'. fold cleanUp_deliver ms (CleanUpAwait h k ks, st) = (CleanUpAwait h k ks, st') \<and>
           wf_state st' \<and> waiting h k st' \<and> repeatingQueries st' = repeatingQueries st \<and>
           ws st' = ws st \<and> (\<forall>j. calm j st \<longrightarrow> calm j st')"
  using assms
proof (induction ms arbitrary: st)
  case Nil
  then show ?case by (intro exI [of _ st]) simp
next
  case (Cons m ms)
  from Cons.prems(3) have m: "reply_id m \<noteq> k" and rest: "list_all (\<lambda>m. reply_id m \<noteq> k) ms"
    by simp_all
  from cleanUp_other [OF Cons.prems(1,2) m, of ks] obtain st1 where st1:
    "cleanUp_deliver m (CleanUpAwait h k ks, st) = (CleanUpAwait h k ks, st1)"
    "wf_state st1" "waiting h k st1" "repeatingQueries st1 = repeatingQueries st"
    "ws st1 = ws st" "\<forall>j. calm j st \<longrightarrow> calm j st1"
    by blast
  from Cons.IH [OF st1(2,3) rest] obtain st' where st':
    "fold cleanUp_deliver ms (CleanUpAwait h k ks, st1) = (CleanUpAwait h k ks, st')"
    "wf_state st'" "waiting h k st'" "repeatingQueries st' = repeatingQueries st1"
    "ws st' = ws st1" "\<forall>j. calm j st1 \<longrightarrow> calm j st'"
    by blast
  show ?case
    by (intro exI [of _ st']) (simp add: st1 st' del: cleanUp_deliver.simps)
qed

lemma cleanUp_reply:
  assumes "wf_state st" and "waiting h k st" and "calm k st" and "reply_id m = k"
    and "\<not> truthy (reply_error m) \<or> convertible (reply_error m)"
  shows "outcome_of (Inr h) (snd (onmessage m st)) =
           verdict (js_or (reply_info m) (reply_data m))
             \<lparr>promise = h, expectedResponse = JStr ''stopped'', repeating = False\<rparr>"
proof -
  let ?l = "\<lparr>promise = h, expectedResponse = JStr ''stopped'', repeating = False\<rparr>"
  have mem: "(reply_id m, ?l) \<in> set (eventEmitter st)" and pend: "promises st ! promise ?l = Pending"
    using assms(2,4) by (simp_all add: waiting_def)
  from onmessage_pending [OF assms(1) mem pend _ assms(5)] assms(3,4) waiting_bound [OF assms(1,2)]
  show ?thesis
    by (simp add: outcome_of_def)
qed

lemma cleanUp_ack:
  assumes "wf_state st" and "waiting h k st" and "calm k st"
  shows "\<exists>st2. cleanUp_deliver (stopped_reply k) (CleanUpAwait h k ks, st) = cleanUp_loop ks st2 \<and>
           wf_state st2 \<and> ws st2 = ws st \<and>
           repeatingQueries st2 = obj_delete k (repeatingQueries st) \<and>
           (\<forall>j. calm j st \<longrightarrow> calm j st2)"
proof -
  let ?m = "stopped_reply k"
  let ?st1 = "snd (onmessage ?m st)"
  let ?st2 = "?st1\<lparr>repeatingQueries := obj_delete k (repeatingQueries st)\<rparr>"
  have "outcome_of (Inr h) ?st1 = Resolved (JStr ''stopped'')"
    using cleanUp_reply [OF assms, of ?m]
    by (simp add: stopped_reply_def verdict_def js_or_def strict_eq_def)
  then have resume: "removeQuery_resume k h ?st1 = (Resolved JUndefined, ?st2)"
    by (simp add: removeQuery_resume_def)
  have step: "cleanUp_deliver ?m (CleanUpAwait h k ks, st) = cleanUp_loop ks ?st2"
    by (simp add: resume del: cleanUp_loop.simps)
  have wf2: "wf_state ?st2"
    by (rule wf_registry [OF _ _ _ wf_onmessage [OF assms(1)]]) simp_all
  have c: "calm j ?st2" if "calm j st" for j
    using calm_onmessage [OF that, of ?m] by (simp add: calm_def listeners_of_def)
  from step wf2 c show ?thesis
    by (intro exI [of _ ?st2]) simp
qed

lemma cleanUp_mismatch:
  assumes "wf_state st" and "waiting h k st" and "calm k st" and "reply_id m = k"
    and "\<not> truthy (reply_error m) \<or> convertible (reply_error m)"
    and "convertible (js_or (reply_info m) (reply_data m))"
    and "js_or (reply_info m) (reply_data m) \<noteq> JStr ''stopped''"
  shows "cleanUp_deliver m (CleanUpAwait h k ks, st) =
           (CleanUpDone (Rejected (ResponseMismatch (js_or (reply_info m) (reply_data m))
              (JStr ''stopped''))), snd (onmessage m st))"
proof -
  have "outcome_of (Inr h) (snd (onmessage m st)) =
      Rejected (ResponseMismatch (js_or (reply_info m) (reply_data m)) (JStr ''stopped''))"
    using cleanUp_reply [OF assms(1-5)] assms(6,7)
    by (auto simp add: verdict_def strict_eq_def)
  then show ?thesis
    by (simp add: removeQuery_resume_def)
qed

lemma is_open_ws: "ws st' = ws st \<Longrightarrow> is_open st' = is_open st"
  by (simp add: is_open_def)

lemma transmitted_ws: "ws st' = ws st \<Longrightarrow> transmitted st' = transmitted st"
  by (simp add: transmitted_def)

lemma cleanUp_round:
  assumes "wf_state st" and "is_open st" and "map_of (repeatingQueries st) k \<noteq> None"
    and "calm k st" and "list_all (\<lambda>m. reply_id m \<noteq> k) ns"
  shows "\<exists>st2. fold cleanUp_deliver (ns @ [stopped_reply k]) (cleanUp_loop (k # ks) st) =
                 cleanUp_loop ks st2 \<and>
           wf_state st2 \<and> is_open st2 \<and>
           repeatingQueries st2 = obj_delete k (repeatingQueries st) \<and>
           transmitted st2 = transmitted st @ [stop_msg k] \<and>
           (\<forall>j. calm j st \<longrightarrow> calm j st2)"
proof -
  from cleanUp_start [OF assms(1-3), of ks] obtain h st1 where st1:
    "cleanUp_loop (k # ks) st = (CleanUpAwait h k ks, st1)"
    "wf_state st1" "is_open st1" "waiting h k st1"
    "repeatingQueries st1 = repeatingQueries st"
    "transmitted st1 = transmitted st @ [stop_msg k]" "\<forall>j. calm j st \<longrightarrow> calm j st1"
    by blast
  from cleanUp_noise [OF st1(2,4) assms(5), of ks] obtain st' where st':
    "fold cleanUp_deliver ns (CleanUpAwait h k ks, st1) = (CleanUpAwait h k ks, st')"
    "wf_state st'" "waiting h k st'" "repeatingQueries st' = repeatingQueries st1"
    "ws st' = ws st1" "\<forall>j. calm j st1 \<longrightarrow> calm j st'"
    by blast
  have "calm k st'"
    using assms(4) st1(7) st'(6) by simp
  from cleanUp_ack [OF st'(2,3) this, of ks] obtain st2 where st2:
    "cleanUp_deliver (stopped_reply k) (CleanUpAwait h k ks, st') = cleanUp_loop ks st2"
    "wf_state st2" "ws st2 = ws st'"
    "repeatingQueries st2 = obj_delete k (repeatingQueries st')"
    "\<forall>j. calm j st' \<longrightarrow> calm j st2"
    by blast
  have ws: "ws st2 = ws st1"
    using st2(3) st'(5) by simp
  show ?thesis
    by (intro exI [of _ st2])
      (simp add: st1 st' st2 is_open_ws [OF ws] transmitted_ws [OF ws]
        del: cleanUp_deliver.simps cleanUp_loop.simps)
qed

lemma obj_delete_all:
  "fold obj_delete ks kvs = filter (\<lambda>e. fst e \<notin> set ks) kvs"
  by (induction ks arbitrary: kvs) (auto simp add: obj_delete_def intro: filter_cong)

lemma cleanUp_prefix:
  assumes "wf_state st" and "is_open st" and "distinct ks"
    and "list_all (\<lambda>k. map_of (repeatingQueries st) k \<noteq> None) ks"
    and "list_all (\<lambda>k. calm k st) ks"
    and "list_all2 (\<lambda>ns k. list_all (\<lambda>m. reply_id m \<noteq> k) ns) nss ks"
  shows "\<exists>st'. fold cleanUp_deliver (round_trips (take n nss) (take n ks)) (cleanUp_loop ks st) =
                 cleanUp_loop (drop n ks) st' \<and>
               wf_state st' \<and> is_open st' \<and>
               repeatingQueries st' = fold obj_delete (take n ks) (repeatingQueries st) \<and>
               transmitted st' = transmitted st @ map stop_msg (take n ks) \<and>
               (\<forall>j. calm j st \<longrightarrow> calm j st')"
  using assms
proof (induction ks arbitrary: st n nss)
  case Nil
  then show ?case by (intro exI [of _ st]) simp
next
  case (Cons k ks)
  show ?case
  proof (cases n)
    case 0
    with Cons.prems show ?thesis by (intro exI [of _ st]) simp
  next
    case (Suc m)
    from Cons.prems(6) obtain ns nss' where nss: "nss = ns # nss'"
      and ns: "list_all (\<lambda>m. reply_id m \<noteq> k) ns"
      and nss': "list_all2 (\<lambda>ns k. list_all (\<lambda>m. reply_id m \<noteq> k) ns) nss' ks"
      by (auto simp add: list_all2_Cons2)
    from Cons.prems have k: "map_of (repeatingQueries st) k \<noteq> None" and ck: "calm k st"
      by simp_all
    from cleanUp_round [OF Cons.prems(1,2) k ck ns, of ks]
    obtain st2 where st2:
      "fold cleanUp_deliver (ns @ [stopped_reply k]) (cleanUp_loop (k # ks) st) = cleanUp_loop ks st2"
      "wf_state st2" "is_open st2" "repeatingQueries st2 = obj_delete k (repeatingQueries st)"
      "transmitted st2 = transmitted st @ [stop_msg k]" "\<forall>j. calm j st \<longrightarrow> calm j st2"
      by blast
    have "map_of (repeatingQueries st2) k' = map_of (repeatingQueries st) k'" if "k' \<in> set ks" for k'
    proof -
      from that Cons.prems(3) have "k' \<noteq> k" by auto
      then show ?thesis by (simp add: st2(4) map_of_obj_delete)
    qed
    with Cons.prems(4) have rest: "list_all (\<lambda>k'. map_of (repeatingQueries st2) k' \<noteq> None) ks"
      by (simp add: list_all_iff)
    from Cons.prems(5) st2(6) have calm2: "list_all (\<lambda>k. calm k st2) ks"
      by (simp add: list_all_iff)
    from Cons.prems(3) have d: "distinct ks"
      by simp
    from Cons.IH [OF st2(2,3) d rest calm2 nss', of m]
    obtain st' where st':
      "fold cleanUp_deliver (round_trips (take m nss') (take m ks)) (cleanUp_loop ks st2) =
         cleanUp_loop (drop m ks) st'"
      "wf_state st'" "is_open st'"
      "repeatingQueries st' = fold obj_delete (take m ks) (repeatingQueries st2)"
      "transmitted st' = transmitted st2 @ map stop_msg (take m ks)"
      "\<forall>j. calm j st2 \<longrightarrow> calm j st'"
      by blast
    have fold_eq: "fold cleanUp_deliver (round_trips (take n nss) (take n (k # ks)))
          (cleanUp_loop (k # ks) st) =
        fold cleanUp_deliver (round_trips (take m nss') (take m ks))
          (fold cleanUp_deliver (ns @ [stopped_reply k]) (cleanUp_loop (k # ks) st))"
      by (simp add: Suc nss del: cleanUp_deliver.simps cleanUp_loop.simps)
    have run: "fold cleanUp_deliver (round_trips (take n nss) (take n (k # ks)))
          (cleanUp_loop (k # ks) st) = cleanUp_loop (drop n (k # ks)) st'"
      unfolding fold_eq st2(1) st'(1) by (simp add: Suc)
    have reg: "repeatingQueries st' = fold obj_delete (take n (k # ks)) (repeatingQueries st)"
      by (simp add: Suc st'(4) st2(4))
    have tr: "transmitted st' = transmitted st @ map stop_msg (take n (k # ks))"
      by (simp add: Suc st'(5) st2(5))
    from run reg tr st'(2,3,6) st2(6) show ?thesis
      by (intro exI [of _ st']) (simp del: cleanUp_loop.simps)
  qed
qed

lemma for_in_keys_set: "set (for_in_keys kvs) = fst ` set kvs"
  by (auto simp add: for_in_keys_def)

lemma for_in_keys_distinct: "distinct (map fst kvs) \<Longrightarrow> distinct (for_in_keys kvs)"
  by (auto simp add: for_in_keys_def)

lemma map_of_filter_keys:
  "k \<in> fst ` set kvs \<Longrightarrow> k \<notin> A \<Longrightarrow> map_of (filter (\<lambda>e. fst e \<notin> A) kvs) k \<noteq> None"
  by (induction kvs) auto

lemma round_trips_all:
  "length nss = length ks \<Longrightarrow> round_trips (take (length ks) nss) (take (length ks) ks) = round_trips nss ks"
  by simp

lemma cleanUp_midway:
  assumes "wf_state st" and "is_open st" and "distinct ks"
    and "list_all (\<lambda>k. map_of (repeatingQueries st) k \<noteq> None) ks"
    and "list_all (\<lambda>k. calm k st) ks"
    and "list_all2 (\<lambda>ns k. list_all (\<lambda>m. reply_id m \<noteq> k) ns) nss ks"
    and "n < length ks"
  shows "\<exists>h st1. fold cleanUp_deliver (round_trips (take n nss) (take n ks)) (cleanUp_loop ks st) =
                   (CleanUpAwait h (ks ! n) (drop (Suc n) ks), st1) \<and>
           wf_state st1 \<and> waiting h (ks ! n) st1 \<and> calm (ks ! n) st1 \<and>
           repeatingQueries st1 = fold obj_delete (take n ks) (repeatingQueries st) \<and>
           transmitted st1 = transmitted st @ map stop_msg (take (Suc n) ks)"
proof -
  from cleanUp_prefix [OF assms(1-6), of n] obtain st' where st':
    "fold cleanUp_deliver (round_trips (take n nss) (take n ks)) (cleanUp_loop ks st) =
       cleanUp_loop (drop n ks) st'"
    "wf_state st'" "is_open st'"
    "repeatingQueries st' = fold obj_delete (take n ks) (repeatingQueries st)"
    "transmitted st' = transmitted st @ map stop_msg (take n ks)"
    "\<forall>j. calm j st \<longrightarrow> calm j st'"
    by blast
  have dr: "drop n ks = ks ! n # drop (Suc n) ks"
    using assms(7) by (simp add: Cons_nth_drop_Suc)
  have "ks ! n \<notin> set (take n ks)"
    using assms(3,7) by (auto simp add: in_set_conv_nth distinct_conv_nth)
  moreover have "ks ! n \<in> fst ` set (repeatingQueries st)"
    using assms(4,7) by (auto simp add: list_all_iff map_of_eq_None_iff)
  ultimately have here: "map_of (repeatingQueries st') (ks ! n) \<noteq> None"
    by (simp add: st'(4) obj_delete_all map_of_filter_keys)
  have c: "calm (ks ! n) st'"
    using assms(5,7) st'(6) by (simp add: list_all_iff)
  from cleanUp_start [OF st'(2,3) here, of "drop (Suc n) ks"] obtain h st1 where st1:
    "cleanUp_loop (ks ! n # drop (Suc n) ks) st' = (CleanUpAwait h (ks ! n) (drop (Suc n) ks), st1)"
    "wf_state st1" "waiting h (ks ! n) st1"
    "repeatingQueries st1 = repeatingQueries st'"
    "transmitted st1 = transmitted st' @ [stop_msg (ks ! n)]" "\<forall>j. calm j st' \<longrightarrow> calm j st1"
    by blast
  from st1 st' c assms(7) show ?thesis
    by (intro exI [of _ h] exI [of _ st1])
      (simp add: dr take_Suc_conv_app_nth del: cleanUp_loop.simps)
qed

lemmas session_defs =
  send_def query_def queryAll_def repeatQuery_def addRepeatingQueryId_def obj_get_def obj_set_def
  outcome_of_def query_outcome_def queryAll_outcome_def repeatQuery_outcome_def transmitted_def
  ws_send_def OPEN_def CONNECTING_def prefixEvent_def prefixBind_def prefixQuery_def
  default_freq_def bindToEvent_def

section \<open>Ordinary ids and replies\<close>

text \<open>
  What the session does when the special cases do not arise: for an id other than
  \<^verbatim>\<open>__proto__\<close> a second \<^verbatim>\<open>repeatQuery\<close> throws, and for replies that convert to
  strings a waiter without an expected value, or with a falsy one, resolves with the
  first reply, and \<^verbatim>\<open>query\<close> and \<^verbatim>\<open>queryAll\<close> resolve with the first element and
  with the whole sequence.
\<close>

lemma onmessage_registry: "repeatingQueries (snd (onmessage m st)) = repeatingQueries st"
  using fold_onmessage_registry [of "[m]" st] by simp

lemma session_step_keeps:
  "\<not> completes_removal i s \<Longrightarrow>
   obj_get i (repeatingQueries st) = Some 1 \<Longrightarrow>
   obj_get i (repeatingQueries (run_step s st)) = Some 1"
proof (cases s)
  case (RepeatQuery j url freq)
  assume "obj_get i (repeatingQueries st) = Some 1"
  then show ?thesis
    using RepeatQuery repeatQuery_keeps [of j i url freq st] repeatQuery_duplicate [of i st url freq]
    by (cases "j = i") simp_all
qed (simp_all add: onmessage_registry removeQuery_keeps removeQuery_resume_keeps)

lemma session_steps_keep:
  "list_all (\<lambda>s. \<not> completes_removal i s) steps \<Longrightarrow>
   obj_get i (repeatingQueries st) = Some 1 \<Longrightarrow>
   obj_get i (repeatingQueries (fold run_step steps st)) = Some 1"
  by (induction steps arbitrary: st) (simp_all add: session_step_keeps)

lemma duplicate_repeatQuery_rejected:
  assumes "i \<noteq> ''__proto__''" and "list_all (\<lambda>s. \<not> completes_removal i s) steps"
  shows "repeatQuery i url' freq'
           (fold run_step steps (snd (repeatQuery i url freq st))) =
         (Inl (DuplicateId i), fold run_step steps (snd (repeatQuery i url freq st)))"
  using assms by (simp add: repeatQuery_duplicate session_steps_keep repeatQuery_registers)

lemma one_shot_waiter_resolves_convertible:
  assumes "wf_state st" and "calm i st" and "convertible r"
  shows "promises (snd (waitForResponse i JUndefined False st)) ! length (promises st) = Pending"
    and "fst (emit i r (snd (waitForResponse i JUndefined False st))) = None"
    and "promises (snd (emit i r (snd (waitForResponse i JUndefined False st)))) ! length (promises st)
           = Resolved r"
    and "promises (fold act as (snd (emit i r (snd (waitForResponse i JUndefined False st)))))
           ! length (promises st) = Resolved r"
    and "length (promises st) \<notin> set (handles (snd (emit i r (snd (waitForResponse i JUndefined False st)))))"
    and "eventEmitter (snd (emit i r (snd (waitForResponse i JUndefined False st)))) =
           eventEmitter (snd (emit i r st))"
proof -
  let ?l = "\<lparr>promise = length (promises st), expectedResponse = JUndefined, repeating = False\<rparr>"
  let ?st2 = "snd (emit i r (snd (waitForResponse i JUndefined False st)))"
  have u: "convertible JUndefined"
    by simp
  have s: "settles r ?l" and v: "verdict r ?l = Resolved r"
    using assms(3) by (simp_all add: settles_def verdict_def)
  show "promises (snd (waitForResponse i JUndefined False st)) ! length (promises st) = Pending"
    by (rule waiter_first_reply(1) [OF assms(1,2) u])
  show "fst (emit i r (snd (waitForResponse i JUndefined False st))) = None"
    using assms(2,3) by (simp add: emit_returns calm_waitForResponse)
  show res: "promises ?st2 ! length (promises st) = Resolved r"
    using waiter_first_reply(2) [OF assms(1,2) u, where rep=False and r=r] v by simp
  then show "promises (fold act as ?st2) ! length (promises st) = Resolved r"
    by (simp add: settled_forever waiter_first_reply_promises [OF assms(1,2) u])
  show "length (promises st) \<notin> set (handles ?st2)"
    by (rule waiter_first_reply(3) [OF assms(1,2) u s])
  show "eventEmitter ?st2 = eventEmitter (snd (emit i r st))"
    by (rule waiter_no_residue [OF assms(1,2) s])
qed

lemma falsy_expected_like_unset:
  assumes "wf_state st" and "calm i st" and "\<not> truthy e" and "convertible r"
  shows "promises (snd (emit i r (snd (waitForResponse i e rep st)))) ! length (promises st) = Resolved r"
    and "length (promises st) \<notin> set (handles (snd (emit i r (snd (waitForResponse i e rep st)))))"
    and "core (snd (emit i r (snd (waitForResponse i e rep st)))) =
         core (snd (emit i r (snd (waitForResponse i JUndefined rep st))))"
proof -
  let ?l = "\<lparr>promise = length (promises st), expectedResponse = e, repeating = rep\<rparr>"
  let ?u = "\<lparr>promise = length (promises st), expectedResponse = JUndefined, repeating = rep\<rparr>"
  have ce: "convertible e"
    using assms(3) by (rule falsy_convertible)
  have s: "settles r ?l" and v: "verdict r ?l = Resolved r"
    and s': "settles r ?u" and v': "verdict r ?u = Resolved r"
    using assms(3,4) ce by (simp_all add: settles_def verdict_def)
  note a = waiter_first_reply_core [OF assms(1,2) s]
  note b = waiter_first_reply_core [OF assms(1,2) s']
  show "promises (snd (emit i r (snd (waitForResponse i e rep st)))) ! length (promises st) = Resolved r"
    using waiter_first_reply(2) [OF assms(1,2) ce, where rep=rep and r=r] v by simp
  show "length (promises st) \<notin> set (handles (snd (emit i r (snd (waitForResponse i e rep st)))))"
    by (rule waiter_first_reply(3) [OF assms(1,2) ce s])
  show "core (snd (emit i r (snd (waitForResponse i e rep st)))) =
         core (snd (emit i r (snd (waitForResponse i JUndefined rep st))))"
    unfolding a b v v' ..
qed

lemma query_first_and_queryAll_whole_convertible:
  assumes "wf_state st" and "is_open st" and "calm i st" and "list_all convertible s"
    and "\<not> truthy err \<or> convertible err"
  shows "query_outcome (fst (query i url st)) (snd (query i url st)) = Pending"
    and "query_outcome (fst (query i url st))
           (snd (onmessage \<lparr>reply_id = i, reply_info = JUndefined, reply_data = JArr s,
                            reply_error = err\<rparr> (snd (query i url st)))) =
         Resolved (case s of [] \<Rightarrow> JUndefined | x # _ \<Rightarrow> x)"
    and "queryAll_outcome (fst (queryAll i url st)) (snd (queryAll i url st)) = Pending"
    and "queryAll_outcome (fst (queryAll i url st))
           (snd (onmessage \<lparr>reply_id = i, reply_info = JUndefined, reply_data = JArr s,
                            reply_error = err\<rparr> (snd (queryAll i url st)))) =
         Resolved (JArr s)"
proof -
  let ?m = "\<lparr>reply_id = i, reply_info = JUndefined, reply_data = JArr s, reply_error = err\<rparr>"
  have i: "reply_id ?m = i" and u: "convertible JUndefined"
    and e: "\<not> truthy (reply_error ?m) \<or> convertible (reply_error ?m)"
    using assms(5) by simp_all
  note r = send_reply [OF assms(1,2) i assms(3) u e, where url="prefixQuery @ url" and f=default_freq]
  from r assms(4) show
    "query_outcome (fst (query i url st)) (snd (query i url st)) = Pending"
    "query_outcome (fst (query i url st)) (snd (onmessage ?m (snd (query i url st)))) =
       Resolved (case s of [] \<Rightarrow> JUndefined | x # _ \<Rightarrow> x)"
    "queryAll_outcome (fst (queryAll i url st)) (snd (queryAll i url st)) = Pending"
    "queryAll_outcome (fst (queryAll i url st)) (snd (onmessage ?m (snd (queryAll i url st)))) =
       Resolved (JArr s)"
    by (simp_all add: query_def queryAll_def query_outcome_def queryAll_outcome_def
        verdict_def js_or_def)
qed

text \<open>
  Why the other waiters of an id matter: \<open>emit\<close> stops at the first listener that
  throws. A waiter whose expected value does not convert throws on every reply, is never
  removed, and keeps every reply from the waiters registered for the id after it.
\<close>

lemma older_waiter_that_throws_blocks_the_id:
  "\<not> calm ''p1'' (snd (waitForRepeatResponse ''p1'' (JObj [(''toString'', JNum 1)]) (open_helper False))) \<and>
   emit ''p1'' (JStr ''DEAD'')
     (snd (waitForRepeatResponse ''p1'' (JStr ''DEAD'')
        (snd (waitForRepeatResponse ''p1'' (JObj [(''toString'', JNum 1)]) (open_helper False))))) =
   (Some TypeError,
    snd (waitForRepeatResponse ''p1'' (JStr ''DEAD'')
        (snd (waitForRepeatResponse ''p1'' (JObj [(''toString'', JNum 1)]) (open_helper False))))) \<and>
   promises (snd (waitForRepeatResponse ''p1'' (JStr ''DEAD'')
        (snd (waitForRepeatResponse ''p1'' (JObj [(''toString'', JNum 1)]) (open_helper False))))) =
   [Pending, Pending]"
  by (simp add: run_defs calm_def)

section \<open>The claims\<close>

text \<open>
  C1. The claim: for every id, the first reply dispatched for the id resolves a one-shot
  waiter that has no expected value, once, with the payload of the reply whatever it is,
  and the waiter is deregistered by the same call. The listener does not get that far
  for every payload: its first statement (line 33) builds a log line from the response,
  also when logging is off, and converting the response to a string throws for a
  payload such as \<^verbatim>\<open>{"toString": 1}\<close>. The theorem runs the code on that reply, for
  the waiter of \<^verbatim>\<open>waitForResponse("q1")\<close> and for \<^verbatim>\<open>queryAll("q1", "scene/Player")\<close>
  on an open socket: the call throws a \<open>TypeError\<close> and leaves the state as it was, so
  the waiter is neither resolved nor deregistered, the promise of \<^verbatim>\<open>queryAll\<close> is
  pending, and it is a later reply that resolves the waiter, with its own payload.
\<close>

theorem one_shot_waiter_stays_pending_on_unconvertible_payload:
  "fst (waitForResponse ''q1'' JUndefined False (open_helper False)) = 0 \<and>
   promises (snd (waitForResponse ''q1'' JUndefined False (open_helper False))) = [Pending] \<and>
   listeners_of ''q1'' (snd (waitForResponse ''q1'' JUndefined False (open_helper False))) =
     [\<lparr>promise = 0, expectedResponse = JUndefined, repeating = False\<rparr>] \<and>
   emit ''q1'' (JObj [(''toString'', JNum 1)])
       (snd (waitForResponse ''q1'' JUndefined False (open_helper False))) =
     (Some TypeError, snd (waitForResponse ''q1'' JUndefined False (open_helper False))) \<and>
   fst (onmessage
          \<lparr>reply_id = ''q1'', reply_info = JObj [(''toString'', JNum 1)],
            reply_data = JUndefined, reply_error = JUndefined\<rparr>
          (snd (queryAll ''q1'' ''scene/Player'' (open_helper False)))) = Some TypeError \<and>
   queryAll_outcome (fst (queryAll ''q1'' ''scene/Player'' (open_helper False)))
     (snd (onmessage
          \<lparr>reply_id = ''q1'', reply_info = JObj [(''toString'', JNum 1)],
            reply_data = JUndefined, reply_error = JUndefined\<rparr>
          (snd (queryAll ''q1'' ''scene/Player'' (open_helper False))))) = Pending \<and>
   promises (snd (emit ''q1'' (JStr ''late'')
       (snd (emit ''q1'' (JObj [(''toString'', JNum 1)])
          (snd (waitForResponse ''q1'' JUndefined False (open_helper False))))))) =
     [Resolved (JStr ''late'')]"
  by (simp add: session_defs run_defs)










text \<open>
  C5. The claim: a second \<^verbatim>\<open>repeatQuery\<close> with an id that has not been removed fails
  with the duplicate-id error before anything is sent. The registry is a plain object
  used as a map from ids to 1, and for the id \<^verbatim>\<open>"__proto__"\<close> it records nothing:
  the test of line 175 reads the prototype, which is not \<^verbatim>\<open>== 1\<close>, and the assignment
  of line 179 is ignored. The theorem runs \<^verbatim>\<open>repeatQuery\<close> twice with that id on an open
  socket, with nothing in between: the first call leaves the registry empty, the second
  is accepted, and two messages have been sent. For every other id the second call
  throws, whatever inbound messages, calls of \<^verbatim>\<open>repeatQuery\<close> and removals of other ids
  come in between.
\<close>

theorem repeatQuery_proto_accepted_twice:
  "fst (repeatQuery ''__proto__'' ''scene/Game/Player.health'' (1 / 4) (open_helper False)) = Inr 0 \<and>
   repeatingQueries
     (snd (repeatQuery ''__proto__'' ''scene/Game/Player.health'' (1 / 4) (open_helper False))) = [] \<and>
   fst (repeatQuery ''__proto__'' ''scene/Game/Player.score'' 0
     (snd (repeatQuery ''__proto__'' ''scene/Game/Player.health'' (1 / 4) (open_helper False)))) =
     Inr 1 \<and>
   transmitted (snd (repeatQuery ''__proto__'' ''scene/Game/Player.score'' 0
     (snd (repeatQuery ''__proto__'' ''scene/Game/Player.health'' (1 / 4) (open_helper False))))) =
     [\<lparr>msg_id = ''__proto__'', msg_q = ''/q/scene/Game/Player.health'', msg_repeat = Some (1 / 4)\<rparr>,
      \<lparr>msg_id = ''__proto__'', msg_q = ''/q/scene/Game/Player.score'', msg_repeat = Some 0\<rparr>]"
  by (simp add: session_defs run_defs)



text \<open>
  C7. The claim: when the transport replies \<^verbatim>\<open>{id, data: s}\<close> for a pending id,
  \<^verbatim>\<open>query\<close> resolves to \<^verbatim>\<open>s[0]\<close> and \<^verbatim>\<open>queryAll\<close> to \<open>s\<close>. Both await the waiter
  of \<^verbatim>\<open>send\<close>, whose listener builds its log line from the response first (line 33);
  an array is converted by converting its elements, which throws for an element such as
  \<^verbatim>\<open>{"toString": 1}\<close>. The theorem runs \<^verbatim>\<open>query("q1", "scene/Player")\<close> and
  \<^verbatim>\<open>queryAll("q2", "scene/Enemies")\<close> on an open socket with the reply
  \<^verbatim>\<open>data: [{"toString": 1}]\<close>: the handler throws a \<open>TypeError\<close>, both promises stay
  pending and the waiter stays registered. This is the defect of C1.
\<close>

theorem query_stays_pending_on_unconvertible_element:
  "fst (onmessage
          \<lparr>reply_id = ''q1'', reply_info = JUndefined,
            reply_data = JArr [JObj [(''toString'', JNum 1)]], reply_error = JUndefined\<rparr>
          (snd (query ''q1'' ''scene/Player'' (open_helper False)))) = Some TypeError \<and>
   query_outcome (fst (query ''q1'' ''scene/Player'' (open_helper False)))
     (snd (onmessage
          \<lparr>reply_id = ''q1'', reply_info = JUndefined,
            reply_data = JArr [JObj [(''toString'', JNum 1)]], reply_error = JUndefined\<rparr>
          (snd (query ''q1'' ''scene/Player'' (open_helper False))))) = Pending \<and>
   queryAll_outcome (fst (queryAll ''q2'' ''scene/Enemies'' (open_helper False)))
     (snd (onmessage
          \<lparr>reply_id = ''q2'', reply_info = JUndefined,
            reply_data = JArr [JObj [(''toString'', JNum 1)]], reply_error = JUndefined\<rparr>
          (snd (queryAll ''q2'' ''scene/Enemies'' (open_helper False))))) = Pending \<and>
   listeners_of ''q2''
     (snd (onmessage
          \<lparr>reply_id = ''q2'', reply_info = JUndefined,
            reply_data = JArr [JObj [(''toString'', JNum 1)]], reply_error = JUndefined\<rparr>
          (snd (queryAll ''q2'' ''scene/Enemies'' (open_helper False))))) =
     [\<lparr>promise = 0, expectedResponse = JUndefined, repeating = False\<rparr>]"
  by (simp add: session_defs run_defs)

text \<open>
  C8. \<^verbatim>\<open>bindToEvent("ready", "scene/Door", false)\<close> on an open socket sends one message
  \<^verbatim>\<open>{id: "event_ready", q: "/bind/scene/Door"}\<close> and awaits one reply, but the waiter
  it registers has no expected value, since \<^verbatim>\<open>"bound"\<close> is passed to \<^verbatim>\<open>send\<close> as
  \<^verbatim>\<open>freq\<close>. The reply \<^verbatim>\<open>"failed"\<close> resolves the waiter; the method then sleeps, and
  when the sleep is over it returns normally, although no \<^verbatim>\<open>"bound"\<close> has been
  received.
\<close>

theorem bindToEvent_returns_without_bound:
  "transmitted (snd (bindToEvent ''ready'' ''scene/Door'' False (open_helper False))) =
     [\<lparr>msg_id = ''event_ready'', msg_q = ''/bind/scene/Door'', msg_repeat = None\<rparr>] \<and>
   listeners_of ''event_ready'' (snd (bindToEvent ''ready'' ''scene/Door'' False (open_helper False))) =
     [\<lparr>promise = 0, expectedResponse = JUndefined, repeating = False\<rparr>] \<and>
   fst (bindToEvent ''ready'' ''scene/Door'' False (open_helper False)) = BindAwait 0 \<and>
   fst (bind_deliver
          \<lparr>reply_id = ''event_ready'', reply_info = JStr ''failed'', reply_data = JUndefined,
             reply_error = JUndefined\<rparr>
          (bindToEvent ''ready'' ''scene/Door'' False (open_helper False))) = BindSleep \<and>
   promises (snd (bind_deliver
          \<lparr>reply_id = ''event_ready'', reply_info = JStr ''failed'', reply_data = JUndefined,
             reply_error = JUndefined\<rparr>
          (bindToEvent ''ready'' ''scene/Door'' False (open_helper False)))) =
     [Resolved (JStr ''failed'')] \<and>
   fst (bindToEvent_wake ''ready'' ''scene/Door'' False BindSleep
         (snd (bind_deliver
          \<lparr>reply_id = ''event_ready'', reply_info = JStr ''failed'', reply_data = JUndefined,
             reply_error = JUndefined\<rparr>
          (bindToEvent ''ready'' ''scene/Door'' False (open_helper False))))) =
     BindDone (Resolved JUndefined)"
  by (simp add: session_defs run_defs)

text \<open>
  C9. For every inbound reply whose \<open>error\<close> field is populated, that is a string, as
  the message format has it, and not the empty one, the handler writes the error with
  the id to the console, and everything but the console is as if the field were absent:
  the handler returns or throws as it does without the error, and the payload
  \<^verbatim>\<open>info || data\<close> is dispatched to the listeners of the id as by \<open>emit\<close>, with the
  same effect on the listeners and on the promises.
\<close>

theorem error_reply_is_still_delivered:
  assumes "reply_error m = JStr s" and "s \<noteq> []"
  shows "LogError (reply_id m) (JStr s) \<in> set (console (snd (onmessage m st))) \<and>
         fst (onmessage m st) = fst (onmessage (m\<lparr>reply_error := JUndefined\<rparr>) st) \<and>
         core (snd (onmessage m st)) = core (snd (onmessage (m\<lparr>reply_error := JUndefined\<rparr>) st)) \<and>
         fst (onmessage m st) = fst (emit (reply_id m) (js_or (reply_info m) (reply_data m)) st) \<and>
         core (snd (onmessage m st)) =
           core (snd (emit (reply_id m) (js_or (reply_info m) (reply_data m)) st))"
proof -
  let ?st2 = "console_log (LogError (reply_id m) (reply_error m)) (logToConsole (LogReceived m) st)"
  have t: "truthy (reply_error m)" and c: "convertible (reply_error m)"
    using assms by simp_all
  have "LogError (reply_id m) (reply_error m) \<in> set (console ?st2)"
    by (simp add: console_log_def)
  with emit_console [of ?st2 "reply_id m" "js_or (reply_info m) (reply_data m)"] t c
  have "LogError (reply_id m) (reply_error m) \<in> set (console (snd (onmessage m st)))"
    by (auto simp add: onmessage_passes)
  moreover have "\<not> truthy (reply_error m) \<or> convertible (reply_error m)"
    using c by simp
  note onmessage_core [OF this, of st]
  moreover have "\<not> truthy (reply_error (m\<lparr>reply_error := JUndefined\<rparr>)) \<or>
      convertible (reply_error (m\<lparr>reply_error := JUndefined\<rparr>))"
    by simp
  note onmessage_core [OF this, of st]
  ultimately show ?thesis
    using assms(1) by simp
qed

theorem error_reply_is_still_delivered_witness:
  "''boom'' \<noteq> [] \<and>
   LogError ''q1'' (JStr ''boom'')
     \<in> set (console (snd (onmessage
          \<lparr>reply_id = ''q1'', reply_info = JUndefined, reply_data = JArr [JStr ''ALIVE''],
            reply_error = JStr ''boom''\<rparr>
          (snd (waitForResponse ''q1'' JUndefined False (open_helper False)))))) \<and>
   fst (onmessage
          \<lparr>reply_id = ''q1'', reply_info = JUndefined, reply_data = JArr [JStr ''ALIVE''],
            reply_error = JStr ''boom''\<rparr>
          (snd (waitForResponse ''q1'' JUndefined False (open_helper False)))) = None \<and>
   promises (snd (onmessage
          \<lparr>reply_id = ''q1'', reply_info = JUndefined, reply_data = JArr [JStr ''ALIVE''],
            reply_error = JStr ''boom''\<rparr>
          (snd (waitForResponse ''q1'' JUndefined False (open_helper False))))) =
     [Resolved (JArr [JStr ''ALIVE''])] \<and>
   core (snd (onmessage
          \<lparr>reply_id = ''q1'', reply_info = JUndefined, reply_data = JArr [JStr ''ALIVE''],
            reply_error = JStr ''boom''\<rparr>
          (snd (waitForResponse ''q1'' JUndefined False (open_helper False))))) =
     core (snd (onmessage
          \<lparr>reply_id = ''q1'', reply_info = JUndefined, reply_data = JArr [JStr ''ALIVE''],
            reply_error = JUndefined\<rparr>
          (snd (waitForResponse ''q1'' JUndefined False (open_helper False)))))"
proof -
  let ?m = "\<lparr>reply_id = ''q1'', reply_info = JUndefined, reply_data = JArr [JStr ''ALIVE''],
              reply_error = JStr ''boom''\<rparr>"
  let ?st = "snd (waitForResponse ''q1'' JUndefined False (open_helper False))"
  have a: "reply_error ?m = JStr ''boom''" and b: "''boom'' \<noteq> []"
    by simp_all
  have "promises (snd (onmessage ?m ?st)) = [Resolved (JArr [JStr ''ALIVE''])]"
    and "fst (onmessage ?m ?st) = None"
    by (simp_all add: run_defs)
  with b error_reply_is_still_delivered [OF a b, of ?st] show ?thesis
    by simp
qed

text \<open>
  C10. The claim: a waiter registered with a falsy expected value, also through
  \<^verbatim>\<open>waitForRepeatResponse\<close> and \<^verbatim>\<open>waitForEvent\<close>, resolves on the first reply
  dispatched for its id, whatever the payload. The test \<^verbatim>\<open>!expectedResponse\<close> of line
  34 does treat a falsy expected value as none, but the log line of line 33 is built
  before it, and for a payload that does not convert to a string the listener throws
  there. The theorem runs the code for \<^verbatim>\<open>waitForRepeatResponse("p1", 0)\<close> with the
  reply \<^verbatim>\<open>{"toString": 1}\<close> and for \<^verbatim>\<open>waitForEvent("ready", "")\<close> with the inbound
  message \<^verbatim>\<open>{id: "event_ready", info: [{"toString": 1}]}\<close>: a \<open>TypeError\<close> is
  thrown and the waiter is pending and registered as before. This is the defect of C1.
\<close>

theorem falsy_expected_waiter_stays_pending_on_unconvertible_payload:
  "\<not> truthy (JNum 0) \<and>
   promises (snd (waitForRepeatResponse ''p1'' (JNum 0) (open_helper False))) = [Pending] \<and>
   listeners_of ''p1'' (snd (waitForRepeatResponse ''p1'' (JNum 0) (open_helper False))) =
     [\<lparr>promise = 0, expectedResponse = JNum 0, repeating = True\<rparr>] \<and>
   emit ''p1'' (JObj [(''toString'', JNum 1)])
       (snd (waitForRepeatResponse ''p1'' (JNum 0) (open_helper False))) =
     (Some TypeError, snd (waitForRepeatResponse ''p1'' (JNum 0) (open_helper False))) \<and>
   \<not> truthy (JStr []) \<and>
   promises (snd (waitForEvent ''ready'' (JStr []) (open_helper False))) = [Pending] \<and>
   fst (onmessage
          \<lparr>reply_id = ''event_ready'', reply_info = JArr [JObj [(''toString'', JNum 1)]],
            reply_data = JUndefined, reply_error = JUndefined\<rparr>
          (snd (waitForEvent ''ready'' (JStr []) (open_helper False)))) = Some TypeError \<and>
   promises (snd (onmessage
          \<lparr>reply_id = ''event_ready'', reply_info = JArr [JObj [(''toString'', JNum 1)]],
            reply_data = JUndefined, reply_error = JUndefined\<rparr>
          (snd (waitForEvent ''ready'' (JStr []) (open_helper False))))) = [Pending]"
  by (simp add: session_defs run_defs)

end
